theory Spec2Isabelle
  imports Complex_Main
begin

section \<open>Floating-point numbers\<close>

text \<open>
  The optimizer of \<^verbatim>\<open>Optimization_Using_Autodiff.ipynb\<close> computes on TensorFlow
  tensors of type \<^verbatim>\<open>float32\<close> and on Python floats (IEEE binary64). A value of either
  kind is a finite real number or one of the special values of IEEE arithmetic; every
  operation computes the exact result and rounds it to the format, to nearest with ties
  to even, with gradual underflow and with overflow to an infinity. The two zeros are
  not distinguished, so the sign of a quotient by zero is that of the numerator.
\<close>

datatype tfloat = Fin real | PInf | NInf | NaN

datatype fmt = Binary32 | Binary64

text \<open>The precision, the least and the greatest exponent of a normal number.\<close>

fun prec :: "fmt \<Rightarrow> nat" where
  "prec Binary32 = 24"
| "prec Binary64 = 53"

fun emin :: "fmt \<Rightarrow> int" where
  "emin Binary32 = - 126"
| "emin Binary64 = - 1022"

fun emax :: "fmt \<Rightarrow> int" where
  "emax Binary32 = 127"
| "emax Binary64 = 1023"

text \<open>The integer nearest to a real number, the even one of two at the same distance.\<close>

definition round_even :: "real \<Rightarrow> int" where
  "round_even z =
     (let k = \<lfloor>z\<rfloor>; d = z - of_int k
      in if d < 1/2 then k else if 1/2 < d then k + 1 else if even k then k else k + 1)"

text \<open>
  The exponent of the binade of a magnitude \<open>a\<close>: the greatest \<open>e\<close> between \<open>lo\<close> and
  \<open>lo + k\<close> with \<open>2\<^sup>e \<le> a\<close>, and \<open>lo\<close> when there is none (the subnormal range).
\<close>

fun expo_down :: "int \<Rightarrow> nat \<Rightarrow> real \<Rightarrow> int" where
  "expo_down lo 0 a = lo"
| "expo_down lo (Suc k) a =
     (if 2 powi (lo + int (Suc k)) \<le> a then lo + int (Suc k) else expo_down lo k a)"

definition fl_expo :: "fmt \<Rightarrow> real \<Rightarrow> int" where
  "fl_expo fm a = expo_down (emin fm) (nat (emax fm - emin fm)) a"

fun tf_inf :: "bool \<Rightarrow> tfloat" where
  "tf_inf True = PInf"
| "tf_inf False = NInf"

text \<open>Rounding of a real number to a format.\<close>

definition fl_round :: "fmt \<Rightarrow> real \<Rightarrow> tfloat" where
  "fl_round fm r =
     (let q = fl_expo fm \<bar>r\<bar> - (int (prec fm) - 1);
          v = of_int (round_even (r / 2 powi q)) * 2 powi q
      in if 2 powi (emax fm + 1) \<le> \<bar>v\<bar> then tf_inf (0 < r) else Fin v)"

fun fl_add :: "fmt \<Rightarrow> tfloat \<Rightarrow> tfloat \<Rightarrow> tfloat" where
  "fl_add fm NaN _ = NaN"
| "fl_add fm _ NaN = NaN"
| "fl_add fm PInf NInf = NaN"
| "fl_add fm NInf PInf = NaN"
| "fl_add fm PInf _ = PInf"
| "fl_add fm _ PInf = PInf"
| "fl_add fm NInf _ = NInf"
| "fl_add fm _ NInf = NInf"
| "fl_add fm (Fin a) (Fin b) = fl_round fm (a + b)"

fun tf_neg :: "tfloat \<Rightarrow> tfloat" where
  "tf_neg (Fin a) = Fin (- a)"
| "tf_neg PInf = NInf"
| "tf_neg NInf = PInf"
| "tf_neg NaN = NaN"

fun fl_mul :: "fmt \<Rightarrow> tfloat \<Rightarrow> tfloat \<Rightarrow> tfloat" where
  "fl_mul fm NaN _ = NaN"
| "fl_mul fm _ NaN = NaN"
| "fl_mul fm (Fin a) (Fin b) = fl_round fm (a * b)"
| "fl_mul fm (Fin a) PInf = (if a = 0 then NaN else tf_inf (0 < a))"
| "fl_mul fm (Fin a) NInf = (if a = 0 then NaN else tf_inf (a < 0))"
| "fl_mul fm PInf (Fin b) = (if b = 0 then NaN else tf_inf (0 < b))"
| "fl_mul fm NInf (Fin b) = (if b = 0 then NaN else tf_inf (b < 0))"
| "fl_mul fm PInf PInf = PInf"
| "fl_mul fm NInf NInf = PInf"
| "fl_mul fm PInf NInf = NInf"
| "fl_mul fm NInf PInf = NInf"

fun fl_div :: "fmt \<Rightarrow> tfloat \<Rightarrow> tfloat \<Rightarrow> tfloat" where
  "fl_div fm NaN _ = NaN"
| "fl_div fm _ NaN = NaN"
| "fl_div fm (Fin a) (Fin b) =
     (if b \<noteq> 0 then fl_round fm (a / b) else if a = 0 then NaN else tf_inf (0 < a))"
| "fl_div fm (Fin a) _ = Fin 0"
| "fl_div fm PInf (Fin b) = tf_inf (0 \<le> b)"
| "fl_div fm NInf (Fin b) = tf_inf (b < 0)"
| "fl_div fm _ _ = NaN"

fun fl_sqrt :: "fmt \<Rightarrow> tfloat \<Rightarrow> tfloat" where
  "fl_sqrt fm (Fin a) = (if a < 0 then NaN else fl_round fm (sqrt a))"
| "fl_sqrt fm PInf = PInf"
| "fl_sqrt fm _ = NaN"

text \<open>The operations on \<^verbatim>\<open>float32\<close> tensor entries.\<close>

definition tf_add :: "tfloat \<Rightarrow> tfloat \<Rightarrow> tfloat" where
  "tf_add = fl_add Binary32"

definition tf_mul :: "tfloat \<Rightarrow> tfloat \<Rightarrow> tfloat" where
  "tf_mul = fl_mul Binary32"

definition tf_div :: "tfloat \<Rightarrow> tfloat \<Rightarrow> tfloat" where
  "tf_div = fl_div Binary32"

definition tf_sqrt :: "tfloat \<Rightarrow> tfloat" where
  "tf_sqrt = fl_sqrt Binary32"

text \<open>
  Python floats: a literal denotes the nearest binary64 number; \<^verbatim>\<open>*\<close> and \<^verbatim>\<open>/\<close> round to
  binary64 (a zero divisor is dealt with where the division stands). A Python float
  that meets a tensor in an operation is converted to \<^verbatim>\<open>float32\<close> first.
\<close>

definition py_lit :: "real \<Rightarrow> tfloat" where
  "py_lit r = fl_round Binary64 r"

definition py_mul :: "tfloat \<Rightarrow> tfloat \<Rightarrow> tfloat" where
  "py_mul = fl_mul Binary64"

definition py_div :: "tfloat \<Rightarrow> tfloat \<Rightarrow> tfloat" where
  "py_div = fl_div Binary64"

fun to_f32 :: "tfloat \<Rightarrow> tfloat" where
  "to_f32 (Fin r) = fl_round Binary32 r"
| "to_f32 a = a"

text \<open>Comparisons: every comparison with a NaN is false.\<close>

fun tf_less :: "tfloat \<Rightarrow> tfloat \<Rightarrow> bool" where
  "tf_less NaN _ = False"
| "tf_less _ NaN = False"
| "tf_less (Fin a) (Fin b) = (a < b)"
| "tf_less _ NInf = False"
| "tf_less NInf _ = True"
| "tf_less PInf _ = False"
| "tf_less _ PInf = True"

fun tf_ge :: "tfloat \<Rightarrow> tfloat \<Rightarrow> bool" where
  "tf_ge NaN _ = False"
| "tf_ge _ NaN = False"
| "tf_ge (Fin a) (Fin b) = (b \<le> a)"
| "tf_ge PInf _ = True"
| "tf_ge _ NInf = True"
| "tf_ge NInf _ = False"
| "tf_ge _ PInf = False"


fun is_fin :: "tfloat \<Rightarrow> bool" where
  "is_fin (Fin a) = True"
| "is_fin _ = False"

text \<open>The real number a finite value stands for.\<close>

fun fin_val :: "tfloat \<Rightarrow> real" where
  "fin_val (Fin a) = a"
| "fin_val _ = 0"

text \<open>The arithmetic symbols on tensor entries are the \<^verbatim>\<open>float32\<close> operations.\<close>

instantiation tfloat :: "{zero, one, plus, minus, uminus, times, inverse}"
begin

definition zero_tfloat :: tfloat where "zero_tfloat = Fin 0"
definition one_tfloat :: tfloat where "one_tfloat = Fin 1"
definition plus_tfloat :: "tfloat \<Rightarrow> tfloat \<Rightarrow> tfloat" where "plus_tfloat = tf_add"
definition uminus_tfloat :: "tfloat \<Rightarrow> tfloat" where "uminus_tfloat = tf_neg"
definition minus_tfloat :: "tfloat \<Rightarrow> tfloat \<Rightarrow> tfloat" where
  "minus_tfloat a b = tf_add a (tf_neg b)"
definition times_tfloat :: "tfloat \<Rightarrow> tfloat \<Rightarrow> tfloat" where "times_tfloat = tf_mul"
definition divide_tfloat :: "tfloat \<Rightarrow> tfloat \<Rightarrow> tfloat" where "divide_tfloat = tf_div"
definition inverse_tfloat :: "tfloat \<Rightarrow> tfloat" where "inverse_tfloat a = tf_div (Fin 1) a"

instance ..

end


section \<open>Vectors and matrices\<close>

text \<open>
  A rank-1 array is a list. A rank-2 array is its shape and its entries; only the
  entries inside the shape matter.
\<close>

record 'a mat =
  nr :: nat
  nc :: nat
  ent :: "nat \<Rightarrow> nat \<Rightarrow> 'a"

text \<open>
  The sum of \<open>h 0, \<dots>, h (n - 1)\<close>, accumulated from the left. With rounded additions
  the order matters; the libraries do not fix it, and no statement below depends on it.
\<close>

primrec lsum :: "(nat \<Rightarrow> 'a::{zero,plus}) \<Rightarrow> nat \<Rightarrow> 'a" where
  "lsum h 0 = 0"
| "lsum h (Suc n) = lsum h n + h n"

definition mat_of_rows :: "nat \<Rightarrow> 'a list list \<Rightarrow> 'a mat" where
  "mat_of_rows c rows = \<lparr>nr = length rows, nc = c, ent = (\<lambda>i j. rows ! i ! j)\<rparr>"

definition eye :: "nat \<Rightarrow> ('a::{zero,one}) mat" where
  "eye k = \<lparr>nr = k, nc = k, ent = (\<lambda>i j. if i = j then 1 else 0)\<rparr>"

definition transpose_m :: "'a mat \<Rightarrow> 'a mat" where
  "transpose_m M = \<lparr>nr = nc M, nc = nr M, ent = (\<lambda>i j. ent M j i)\<rparr>"

definition matmul :: "('a::{zero,plus,times}) mat \<Rightarrow> 'a mat \<Rightarrow> 'a mat" where
  "matmul M N = \<lparr>nr = nr M, nc = nc N, ent = (\<lambda>i j. lsum (\<lambda>k. ent M i k * ent N k j) (nc M))\<rparr>"

definition matvec :: "('a::{zero,plus,times}) mat \<Rightarrow> 'a list \<Rightarrow> 'a list" where
  "matvec M v = map (\<lambda>i. lsum (\<lambda>k. ent M i k * v ! k) (nc M)) [0..<nr M]"

definition smul_m :: "('a::times) \<Rightarrow> 'a mat \<Rightarrow> 'a mat" where
  "smul_m a M = \<lparr>nr = nr M, nc = nc M, ent = (\<lambda>i j. a * ent M i j)\<rparr>"

definition add_m :: "('a::plus) mat \<Rightarrow> 'a mat \<Rightarrow> 'a mat" where
  "add_m M N = \<lparr>nr = nr M, nc = nc M, ent = (\<lambda>i j. ent M i j + ent N i j)\<rparr>"

definition sub_m :: "('a::minus) mat \<Rightarrow> 'a mat \<Rightarrow> 'a mat" where
  "sub_m M N = \<lparr>nr = nr M, nc = nc M, ent = (\<lambda>i j. ent M i j - ent N i j)\<rparr>"

definition outer :: "('a::times) list \<Rightarrow> 'a list \<Rightarrow> 'a mat" where
  "outer u v = \<lparr>nr = length u, nc = length v, ent = (\<lambda>i j. u ! i * v ! j)\<rparr>"

definition row_of :: "'a mat \<Rightarrow> nat \<Rightarrow> 'a list" where
  "row_of M i = map (\<lambda>j. ent M i j) [0..<nc M]"

text \<open>The entries in row-major order, as \<^verbatim>\<open>reshape\<close> lays them out.\<close>

definition flat :: "'a mat \<Rightarrow> 'a list" where
  "flat M = concat (map (row_of M) [0..<nr M])"

definition dot :: "('a::{zero,plus,times}) list \<Rightarrow> 'a list \<Rightarrow> 'a" where
  "dot u v = lsum (\<lambda>k. u ! k * v ! k) (length u)"

definition reduce_sum :: "('a::{zero,plus}) list \<Rightarrow> 'a" where
  "reduce_sum u = lsum (\<lambda>k. u ! k) (length u)"

definition vadd :: "('a::plus) list \<Rightarrow> 'a list \<Rightarrow> 'a list" where
  "vadd u v = map (\<lambda>k. u ! k + v ! k) [0..<length u]"

definition vsub :: "('a::minus) list \<Rightarrow> 'a list \<Rightarrow> 'a list" where
  "vsub u v = map (\<lambda>k. u ! k - v ! k) [0..<length u]"

definition vneg :: "('a::uminus) list \<Rightarrow> 'a list" where
  "vneg u = map uminus u"

definition vscale :: "('a::times) \<Rightarrow> 'a list \<Rightarrow> 'a list" where
  "vscale a u = map ((*) a) u"

definition vecmat :: "('a::{zero,plus,times}) list \<Rightarrow> 'a mat \<Rightarrow> 'a list" where
  "vecmat v M = map (\<lambda>j. lsum (\<lambda>k. v ! k * ent M k j) (nr M)) [0..<nc M]"

definition mat_eq :: "'a mat \<Rightarrow> 'a mat \<Rightarrow> bool" where
  "mat_eq M N \<longleftrightarrow>
     nr M = nr N \<and> nc M = nc N \<and> (\<forall>i\<in>{..<nr M}. \<forall>j\<in>{..<nc M}. ent M i j = ent N i j)"

definition fin_vec :: "tfloat list \<Rightarrow> bool" where
  "fin_vec v \<longleftrightarrow> (\<forall>a \<in> set v. is_fin a)"

definition fin_mat :: "tfloat mat \<Rightarrow> bool" where
  "fin_mat M \<longleftrightarrow> (\<forall>i\<in>{..<nr M}. \<forall>j\<in>{..<nc M}. is_fin (ent M i j))"

text \<open>The real matrix a tensor with finite entries stands for, and the entrywise rounding.\<close>

definition real_m :: "tfloat mat \<Rightarrow> real mat" where
  "real_m M = \<lparr>nr = nr M, nc = nc M, ent = (\<lambda>i j. fin_val (ent M i j))\<rparr>"

definition round_m :: "real mat \<Rightarrow> tfloat mat" where
  "round_m M = \<lparr>nr = nr M, nc = nc M, ent = (\<lambda>i j. fl_round Binary32 (ent M i j))\<rparr>"


section \<open>The Newton-type optimizer\<close>

datatype opt_method = GD | GN | LM | EN | BFGS

datatype py_error =
  ZeroDivisionError | AssertionError | NameError | ValueError | LinAlgError
  | TypeError | AttributeError

text \<open>
  The external numerical capabilities the class calls: TensorFlow's automatic
  differentiation of a function at a point (\<^verbatim>\<open>GradientTape.jacobian\<close>, already
  reshaped as \<^verbatim>\<open>jacob\<close> and \<^verbatim>\<open>hess\<close> reshape it) and \<^verbatim>\<open>tf.linalg.pinv\<close>. The nested
  differentiation of \<^verbatim>\<open>hess\<close> yields \<^verbatim>\<open>None\<close> instead of a tensor when the gradient
  does not depend on the point.
\<close>

record tf_lib =
  jacobian :: "(tfloat list \<Rightarrow> tfloat list) \<Rightarrow> tfloat list \<Rightarrow> tfloat mat"
  hessian :: "(tfloat list \<Rightarrow> tfloat list) \<Rightarrow> tfloat list \<Rightarrow> tfloat mat option"
  pinv :: "tfloat mat \<Rightarrow> tfloat mat"

text \<open>The attributes of an object of the class; \<open>eps\<close> and \<open>alpha\<close> are finite Python floats.\<close>

record newton_opt =
  eps :: real
  x :: "tfloat list"
  m :: nat
  f :: "tfloat list \<Rightarrow> tfloat list"
  alpha :: real
  opt_method :: opt_method
  globalized :: bool
  fs :: "tfloat list \<Rightarrow> tfloat"

text \<open>
  Tensors of shape \<open>(k,1)\<close> (the iterate, the gradient, the step, the error vector)
  are lists of length \<open>k\<close>; a scalar tensor returned by the objective is a list of one
  entry where the class stores it in \<^verbatim>\<open>self.f\<close>.

  \<^verbatim>\<open>f_sq_err\<close>: the sum of the squared entries of the error vector.
\<close>

definition f_sq_err :: "(tfloat list \<Rightarrow> tfloat list) \<Rightarrow> tfloat list \<Rightarrow> tfloat" where
  "f_sq_err fcn v = reduce_sum (map (\<lambda>e. e * e) (fcn v))"

text \<open>
  \<^verbatim>\<open>__init__\<close>, for a rank-2 \<^verbatim>\<open>x0\<close>: \<^verbatim>\<open>self.x\<close> is \<^verbatim>\<open>x0\<close> reshaped to a column and
  \<^verbatim>\<open>self.m\<close> is the first dimension of \<^verbatim>\<open>x0\<close> as it was given. The two agree, \<open>m\<close>
  being the number of parameters, when \<^verbatim>\<open>x0\<close> is a column. The body of the loop of
  \<^verbatim>\<open>optimize\<close> is modelled for that case; for another shape of \<^verbatim>\<open>x0\<close> TensorFlow
  broadcasts the step against the iterate or raises, which is not modelled.
\<close>

definition init ::
  "tfloat mat \<Rightarrow> (tfloat list \<Rightarrow> tfloat list) \<Rightarrow> opt_method \<Rightarrow> bool \<Rightarrow> real \<Rightarrow> real \<Rightarrow> newton_opt" where
  "init x0 fcn meth glob al ep =
     \<lparr>eps = ep, x = flat x0, m = nr x0,
      f = (if meth \<in> {GD, EN, BFGS} then (\<lambda>v. [f_sq_err fcn v]) else fcn),
      alpha = (if meth \<in> {GN} then 0 else al),
      opt_method = meth, globalized = glob, fs = f_sq_err fcn\<rparr>"

definition jacob :: "tf_lib \<Rightarrow> newton_opt \<Rightarrow> tfloat list \<Rightarrow> tfloat mat" where
  "jacob tf self v = jacobian tf (f self) v"

text \<open>\<^verbatim>\<open>hess\<close>: the assertion, and \<^verbatim>\<open>tf.reshape\<close> raising on \<^verbatim>\<open>None\<close>.\<close>

definition hess :: "tf_lib \<Rightarrow> newton_opt \<Rightarrow> tfloat list \<Rightarrow> py_error + tfloat mat" where
  "hess tf self v =
     (if length (f self v) > 1 then Inl AssertionError
      else case hessian tf (f self) v of None \<Rightarrow> Inl ValueError | Some H \<Rightarrow> Inr H)"

subsection \<open>The line search\<close>

text \<open>
  The condition of the inner \<^verbatim>\<open>while\<close> of \<^verbatim>\<open>optimize\<close>:
  \<^verbatim>\<open>fs(x+t*dx) >= fs(x) + gamma_*t*reduce_sum(gradf*dx) or t < 0.1\<close>,
  with \<^verbatim>\<open>gamma_ = 0.1\<close>. The step length \<open>t\<close> is a Python float: \<^verbatim>\<open>gamma_*t\<close> is a
  product of Python floats, and \<open>t\<close> and \<^verbatim>\<open>gamma_*t\<close> are converted where they meet a
  tensor.
\<close>

definition armijo_fails ::
  "(tfloat list \<Rightarrow> tfloat) \<Rightarrow> tfloat list \<Rightarrow> tfloat list \<Rightarrow> tfloat list \<Rightarrow> tfloat \<Rightarrow> bool" where
  "armijo_fails fsq xc gradf dx t \<longleftrightarrow>
     tf_ge (fsq (vadd xc (vscale (to_f32 t) dx)))
           (fsq xc + to_f32 (py_mul (py_lit (1/10)) t) * dot gradf dx)"

definition search_continues ::
  "(tfloat list \<Rightarrow> tfloat) \<Rightarrow> tfloat list \<Rightarrow> tfloat list \<Rightarrow> tfloat list \<Rightarrow> tfloat \<Rightarrow> bool" where
  "search_continues fsq xc gradf dx t \<longleftrightarrow>
     armijo_fails fsq xc gradf dx t \<or> tf_less t (py_lit (1/10))"

text \<open>The loop \<^verbatim>\<open>while ...: t = beta_*t\<close> with \<^verbatim>\<open>beta_ = 0.8\<close>; \<open>None\<close>: it never exits.\<close>

partial_function (option) backtrack ::
  "(tfloat list \<Rightarrow> tfloat) \<Rightarrow> tfloat list \<Rightarrow> tfloat list \<Rightarrow> tfloat list \<Rightarrow> tfloat \<Rightarrow> tfloat option" where
  "backtrack fsq xc gradf dx t =
     (if search_continues fsq xc gradf dx t
      then backtrack fsq xc gradf dx (py_mul (py_lit (8/10)) t)
      else Some t)"

subsection \<open>One pass through the body of the main loop\<close>

text \<open>The gradient and, for GN and LM, the Jacobian of the error vector.\<close>

definition gradient :: "tf_lib \<Rightarrow> newton_opt \<Rightarrow> tfloat list" where
  "gradient tf self =
     (if opt_method self \<in> {GD, EN, BFGS} then row_of (jacob tf self (x self)) 0
      else matvec (transpose_m (jacob tf self (x self))) (f self (x self)))"

text \<open>
  The curvature matrix. \<^verbatim>\<open>1/self.alpha\<close> is a division of Python floats, which raises
  for a zero divisor; the quotient, and \<^verbatim>\<open>self.alpha\<close> for GN and LM, is converted to
  \<^verbatim>\<open>float32\<close> where it multiplies the identity.
\<close>

definition curvature :: "tf_lib \<Rightarrow> newton_opt \<Rightarrow> tfloat mat \<Rightarrow> py_error + tfloat mat" where
  "curvature tf self B =
     (case opt_method self of
        GD \<Rightarrow> (if alpha self = 0 then Inl ZeroDivisionError
               else Inr (smul_m (to_f32 (py_div (Fin 1) (Fin (alpha self)))) (eye (m self))))
      | GN \<Rightarrow> Inr (add_m (matmul (transpose_m (jacob tf self (x self))) (jacob tf self (x self)))
                         (smul_m (to_f32 (Fin (alpha self))) (eye (m self))))
      | LM \<Rightarrow> Inr (add_m (matmul (transpose_m (jacob tf self (x self))) (jacob tf self (x self)))
                         (smul_m (to_f32 (Fin (alpha self))) (eye (m self))))
      | EN \<Rightarrow> hess tf self (x self)
      | BFGS \<Rightarrow> Inr B)"

definition raw_step :: "tf_lib \<Rightarrow> tfloat mat \<Rightarrow> tfloat list \<Rightarrow> tfloat list" where
  "raw_step tf B gradf = vneg (matvec (pinv tf B) gradf)"

text \<open>The BFGS update; \<^verbatim>\<open>1/c1\<close> and \<^verbatim>\<open>1/c2\<close> divide by tensors.\<close>

definition bfgs_update :: "tfloat mat \<Rightarrow> tfloat list \<Rightarrow> tfloat list \<Rightarrow> tfloat mat" where
  "bfgs_update B s y =
     (let c1 = dot (vecmat s B) s;
          c2 = dot s y;
          Bs = matvec B s
      in add_m (sub_m B (smul_m (Fin 1 / c1) (outer Bs Bs))) (smul_m (Fin 1 / c2) (outer y y)))"

definition bfgs_y :: "tf_lib \<Rightarrow> newton_opt \<Rightarrow> tfloat list \<Rightarrow> tfloat list \<Rightarrow> tfloat list" where
  "bfgs_y tf self xnew xold = row_of (sub_m (jacob tf self xnew) (jacob tf self xold)) 0"

text \<open>
  The part of the body after the step is known: the update of the iterate and, for
  BFGS, of the curvature matrix.
\<close>

definition update :: "tf_lib \<Rightarrow> newton_opt \<Rightarrow> tfloat mat \<Rightarrow> tfloat list \<Rightarrow>
    newton_opt \<times> tfloat mat \<times> tfloat list" where
  "update tf self B dx =
     (let xold = x self;
          self' = self\<lparr>x := vadd (x self) dx\<rparr>
      in (self',
          (if opt_method self = BFGS then bfgs_update B dx (bfgs_y tf self (x self') xold) else B),
          dx))"

text \<open>
  The whole body up to the exit test. \<open>None\<close>: the line search never exits;
  \<open>Some (Inl e)\<close>: the exception \<open>e\<close> is raised.
\<close>

definition iteration :: "tf_lib \<Rightarrow> newton_opt \<Rightarrow> tfloat mat \<Rightarrow>
    (py_error + newton_opt \<times> tfloat mat \<times> tfloat list) option" where
  "iteration tf self B0 =
     (let gradf = gradient tf self in
      case curvature tf self B0 of
        Inl e \<Rightarrow> Some (Inl e)
      | Inr B \<Rightarrow>
          (let dx = raw_step tf B gradf in
           if globalized self
           then (case backtrack (fs self) (x self) gradf dx (Fin 1) of
                   None \<Rightarrow> None
                 | Some t \<Rightarrow> Some (Inr (update tf self B (vscale (to_f32 t) dx))))
           else Some (Inr (update tf self B dx))))"

subsection \<open>The main loop\<close>

text \<open>What \<^verbatim>\<open>optimize\<close> prints when it leaves the loop.\<close>

record report =
  iters :: int
  fit_err :: tfloat
  warned :: bool

text \<open>
  \<^verbatim>\<open>np.linalg.norm\<close> of a \<^verbatim>\<open>float32\<close> array: the root of its product with itself. The
  exit test compares it with \<^verbatim>\<open>self.eps\<close> as numbers. The printed fitting error
  \<^verbatim>\<open>np.dot(err_,err_)**(0.5)\<close> is taken as the same function of the error vector.
\<close>

definition norm_np :: "tfloat list \<Rightarrow> tfloat" where
  "norm_np v = tf_sqrt (dot v v)"

definition exits :: "newton_opt \<Rightarrow> int \<Rightarrow> int \<Rightarrow> tfloat list \<Rightarrow> bool" where
  "exits self max_it i dx \<longleftrightarrow> tf_less (norm_np dx) (Fin (eps self)) \<or> i > max_it"

definition leave :: "newton_opt \<Rightarrow> int \<Rightarrow> int \<Rightarrow> report" where
  "leave self max_it i =
     \<lparr>iters = i, fit_err = norm_np (f self (x self)), warned = (i > max_it)\<rparr>"

function opt_loop :: "tf_lib \<Rightarrow> int \<Rightarrow> newton_opt \<Rightarrow> tfloat mat \<Rightarrow> int \<Rightarrow>
    (py_error + newton_opt \<times> report) option" where
  "opt_loop tf max_it self B i =
     (case iteration tf self B of
        None \<Rightarrow> None
      | Some (Inl e) \<Rightarrow> Some (Inl e)
      | Some (Inr (self', B', dx)) \<Rightarrow>
          (if exits self' max_it (i + 1) dx then Some (Inr (self', leave self' max_it (i + 1)))
           else opt_loop tf max_it self' B' (i + 1)))"
  by pat_completeness auto
termination
  by (relation "measure (\<lambda>(tf, max_it, self, B, i). nat (max_it - i))")
     (auto simp: exits_def)

text \<open>\<^verbatim>\<open>optimize\<close>; the returned \<^verbatim>\<open>self.x\<close> is the field \<open>x\<close> of the returned object.\<close>

definition optimize :: "tf_lib \<Rightarrow> newton_opt \<Rightarrow> int \<Rightarrow> (py_error + newton_opt \<times> report) option" where
  "optimize tf self max_it = opt_loop tf max_it self (eye (m self)) 0"

text \<open>
  The outcome of pass number \<open>k + 1\<close> of the body, whatever the exit test says: the
  sequence of iterates the loop walks along.
\<close>

fun pass :: "tf_lib \<Rightarrow> nat \<Rightarrow> newton_opt \<Rightarrow> tfloat mat \<Rightarrow>
    (py_error + newton_opt \<times> tfloat mat \<times> tfloat list) option" where
  "pass tf 0 self B = iteration tf self B"
| "pass tf (Suc k) self B =
     (case iteration tf self B of
        Some (Inr (self', B', dx)) \<Rightarrow> pass tf k self' B'
      | r \<Rightarrow> r)"


section \<open>A reference problem\<close>

text \<open>
  A differentiation oracle that is exact on polynomials of degree at most two as long
  as its differences are computed without rounding error (central differences with step
  one), and a pseudo-inverse for diagonal matrices, which rounds the reciprocals of the
  diagonal and yields NaN everywhere for a matrix with an entry that is not finite:
  enough to run the optimizer on the quadratic objectives used as test inputs below.
\<close>

definition quad_jacobian :: "(tfloat list \<Rightarrow> tfloat list) \<Rightarrow> tfloat list \<Rightarrow> tfloat mat" where
  "quad_jacobian g v =
     \<lparr>nr = length (g v), nc = length v,
      ent = (\<lambda>i j. (g (v[j := v ! j + Fin 1]) ! i - g (v[j := v ! j - Fin 1]) ! i) / Fin 2)\<rparr>"

definition quad_hessian :: "(tfloat list \<Rightarrow> tfloat list) \<Rightarrow> tfloat list \<Rightarrow> tfloat mat" where
  "quad_hessian g v =
     \<lparr>nr = length v, nc = length v,
      ent = (\<lambda>i j. (ent (quad_jacobian g (v[j := v ! j + Fin 1])) 0 i
                    - ent (quad_jacobian g (v[j := v ! j - Fin 1])) 0 i) / Fin 2)\<rparr>"

definition pinv_diag :: "tfloat mat \<Rightarrow> tfloat mat" where
  "pinv_diag M =
     \<lparr>nr = nc M, nc = nr M,
      ent = (\<lambda>i j. if \<not> fin_mat M then NaN
                    else if i = j then (if ent M i i = Fin 0 then Fin 0 else Fin 1 / ent M i i)
                    else Fin 0)\<rparr>"

definition tf_quad :: tf_lib where
  "tf_quad = \<lparr>jacobian = quad_jacobian, hessian = (\<lambda>g v. Some (quad_hessian g v)),
              pinv = pinv_diag\<rparr>"

text \<open>The value of a Python float literal.\<close>

definition py_val :: "real \<Rightarrow> real" where
  "py_val r = fin_val (py_lit r)"

text \<open>
  \<^verbatim>\<open>newton_opt(x0=[[0.]], fcn=lambda x: x, method="GN", global_=True)\<close>: one parameter,
  the error vector is the parameter itself, and the start is the minimizer.
\<close>

definition stationary_gn :: newton_opt where
  "stationary_gn =
     init (mat_of_rows 1 [[Fin 0]]) (\<lambda>v. v) GN True (py_val (1/10000)) (py_val (1/1000))"


text \<open>
  \<^verbatim>\<open>newton_opt(x0=[[1.]], fcn=lambda x: x, method="GD", alpha=1., eps=1e-3)\<close>: the
  objective is \<open>x\<^sup>2\<close>, the step is \<open>-2x\<close>, and the iterate jumps between 1 and -1.
\<close>

definition oscillating_gd :: newton_opt where
  "oscillating_gd = init (mat_of_rows 1 [[Fin 1]]) (\<lambda>v. v) GD False 1 (py_val (1/1000))"


text \<open>
  Gradient descent on \<open>x\<^sup>2\<close> from 1 with three other values of \<^verbatim>\<open>alpha\<close>: \<open>2\<^sup>-\<^sup>3\<^sup>0\<close>,
  whose step is too small to change the iterate; 7, whose reciprocal is not a binary
  fraction; and \<open>2\<^sup>-\<^sup>1\<^sup>3\<^sup>0\<close>, whose reciprocal is beyond the range of \<^verbatim>\<open>float32\<close>.
\<close>

definition absorbed_gd :: newton_opt where
  "absorbed_gd = init (mat_of_rows 1 [[Fin 1]]) (\<lambda>v. v) GD False (1 / 2 ^ 30) (py_val (1/1000))"

definition gd_seven :: newton_opt where
  "gd_seven = init (mat_of_rows 1 [[Fin 1]]) (\<lambda>v. v) GD False 7 (py_val (1/1000))"

definition gd_tiny :: newton_opt where
  "gd_tiny = init (mat_of_rows 1 [[Fin 1]]) (\<lambda>v. v) GD False (1 / 2 ^ 130) (py_val (1/1000))"



text \<open>Gradient descent with \<open>alpha = 1/2\<close> on \<open>x\<^sub>1\<^sup>2 + x\<^sub>2\<^sup>2\<close> from \<open>(1, 2)\<close>.\<close>

definition gd_two :: newton_opt where
  "gd_two = init (mat_of_rows 1 [[Fin 1], [Fin 2]]) (\<lambda>v. v) GD False (1/2) (py_val (1/1000))"

section \<open>Predicates used in the statements\<close>


text \<open>The four Penrose equations that make \<open>X\<close> the pseudo-inverse of a real matrix \<open>A\<close>.\<close>

definition moore_penrose :: "real mat \<Rightarrow> real mat \<Rightarrow> bool" where
  "moore_penrose A X \<longleftrightarrow>
     nr X = nc A \<and> nc X = nr A \<and>
     mat_eq (matmul (matmul A X) A) A \<and>
     mat_eq (matmul (matmul X A) X) X \<and>
     mat_eq (transpose_m (matmul A X)) (matmul A X) \<and>
     mat_eq (transpose_m (matmul X A)) (matmul X A)"

text \<open>
  The contract of \<^verbatim>\<open>tf.linalg.pinv\<close> at a matrix \<open>B\<close> with finite entries: the result is
  the pseudo-inverse \<open>X\<close> of \<open>B\<close>, rounded entry by entry.
\<close>

definition pinv_rounds :: "tf_lib \<Rightarrow> tfloat mat \<Rightarrow> real mat \<Rightarrow> bool" where
  "pinv_rounds tf B X \<longleftrightarrow>
     fin_mat B \<and> moore_penrose (real_m B) X \<and> mat_eq (pinv tf B) (round_m X)"


section \<open>The equality-constrained QP solver\<close>

text \<open>
  \<^verbatim>\<open>Equality_constrained_optimization_QP.ipynb\<close> computes on NumPy arrays of floats;
  here an entry is a real number (exact arithmetic). \<^verbatim>\<open>np.linalg.qr\<close> and
  \<^verbatim>\<open>np.linalg.lstsq\<close> are external.
\<close>

record np_lib =
  qr_complete :: "real mat \<Rightarrow> real mat \<times> real mat"
  lstsq :: "real mat \<Rightarrow> real list \<Rightarrow> real list"

text \<open>
  The function resolves four names that are not among its parameters in the scope it
  is defined in (the module's namespace, then the builtins): \<^verbatim>\<open>np\<close>, \<^verbatim>\<open>print\<close>,
  \<^verbatim>\<open>n\<close> and \<^verbatim>\<open>m\<close>. A name is bound to an integer, to a module with the two
  functions above, to the builtin \<^verbatim>\<open>print\<close>, or to some other object, which is neither
  an integer nor callable and has no attribute \<^verbatim>\<open>linalg\<close>.
\<close>

datatype pyval = IntV int | NumpyV np_lib | PrintV | OtherV

type_synonym scope = "string \<Rightarrow> pyval option"

definition bindE :: "py_error + 'a \<Rightarrow> ('a \<Rightarrow> py_error + 'b) \<Rightarrow> py_error + 'b" where
  "bindE r k = (case r of Inl e \<Rightarrow> Inl e | Inr v \<Rightarrow> k v)"

definition lookup :: "scope \<Rightarrow> string \<Rightarrow> py_error + pyval" where
  "lookup g name = (case g name of None \<Rightarrow> Inl NameError | Some v \<Rightarrow> Inr v)"

text \<open>The use of a value as a size or a slice bound, as the module, and as a function.\<close>

fun as_int :: "pyval \<Rightarrow> py_error + int" where
  "as_int (IntV k) = Inr k"
| "as_int _ = Inl TypeError"

fun as_numpy :: "pyval \<Rightarrow> py_error + np_lib" where
  "as_numpy (NumpyV l) = Inr l"
| "as_numpy _ = Inl AttributeError"

fun call_print :: "pyval \<Rightarrow> py_error + unit" where
  "call_print PrintV = Inr ()"
| "call_print _ = Inl TypeError"

text \<open>The position a slice bound \<open>k\<close> denotes in an axis of length \<open>len\<close>.\<close>

definition slice_idx :: "nat \<Rightarrow> int \<Rightarrow> nat" where
  "slice_idx len k = nat (if k < 0 then max (int len + k) 0 else min k (int len))"

definition cols_from :: "'a mat \<Rightarrow> nat \<Rightarrow> 'a mat" where
  "cols_from M s = \<lparr>nr = nr M, nc = nc M - s, ent = (\<lambda>i j. ent M i (j + s))\<rparr>"

definition cols_upto :: "'a mat \<Rightarrow> nat \<Rightarrow> 'a mat" where
  "cols_upto M s = \<lparr>nr = nr M, nc = s, ent = ent M\<rparr>"

definition rows_upto :: "'a mat \<Rightarrow> nat \<Rightarrow> 'a mat" where
  "rows_upto M s = \<lparr>nr = s, nc = nc M, ent = ent M\<rparr>"

definition neg_m :: "('a::uminus) mat \<Rightarrow> 'a mat" where
  "neg_m M = \<lparr>nr = nr M, nc = nc M, ent = (\<lambda>i j. - ent M i j)\<rparr>"

definition zeros_m :: "nat \<Rightarrow> nat \<Rightarrow> real mat" where
  "zeros_m r c = \<lparr>nr = r, nc = c, ent = (\<lambda>i j. 0)\<rparr>"

text \<open>The operator \<^verbatim>\<open>@\<close> on two rank-2 arrays and on a rank-2 and a rank-1 array.\<close>

definition np_matmul :: "real mat \<Rightarrow> real mat \<Rightarrow> py_error + real mat" where
  "np_matmul M N = (if nc M = nr N then Inr (matmul M N) else Inl ValueError)"

definition np_matvec :: "real mat \<Rightarrow> real list \<Rightarrow> py_error + real list" where
  "np_matvec M v = (if nc M = length v then Inr (matvec M v) else Inl ValueError)"

text \<open>The sum of two rank-1 arrays, with broadcasting of an array of length one.\<close>

definition np_add :: "real list \<Rightarrow> real list \<Rightarrow> py_error + real list" where
  "np_add u v =
     (if length u = length v then Inr (vadd u v)
      else if length u = 1 then Inr (map (\<lambda>e. hd u + e) v)
      else if length v = 1 then Inr (map (\<lambda>e. e + hd v) u)
      else Inl ValueError)"

definition np_lstsq :: "np_lib \<Rightarrow> real mat \<Rightarrow> real list \<Rightarrow> py_error + real list" where
  "np_lstsq np a rhs = (if nr a = length rhs then Inr (lstsq np a rhs) else Inl LinAlgError)"

text \<open>
  The assignments \<^verbatim>\<open>M[r0:r1, c0:c1] = V\<close> and \<^verbatim>\<open>v[k0:k1] = w\<close>; the value is broadcast
  along an axis where it has length one.
\<close>

definition assign2 :: "real mat \<Rightarrow> nat \<Rightarrow> nat \<Rightarrow> nat \<Rightarrow> nat \<Rightarrow> real mat \<Rightarrow> py_error + real mat" where
  "assign2 M r0 r1 c0 c1 V =
     (if (nr V = r1 - r0 \<or> nr V = 1) \<and> (nc V = c1 - c0 \<or> nc V = 1)
      then Inr \<lparr>nr = nr M, nc = nc M,
                ent = (\<lambda>i j. if r0 \<le> i \<and> i < r1 \<and> c0 \<le> j \<and> j < c1
                              then ent V (if nr V = 1 then 0 else i - r0)
                                         (if nc V = 1 then 0 else j - c0)
                              else ent M i j)\<rparr>
      else Inl ValueError)"

definition assign1 :: "real list \<Rightarrow> nat \<Rightarrow> nat \<Rightarrow> real list \<Rightarrow> py_error + real list" where
  "assign1 v k0 k1 w =
     (if length w = k1 - k0 \<or> length w = 1
      then Inr (map (\<lambda>k. if k0 \<le> k \<and> k < k1 then w ! (if length w = 1 then 0 else k - k0)
                           else v ! k) [0..<length v])
      else Inl ValueError)"

text \<open>
  The branch \<^verbatim>\<open>method == "NullSpace"\<close>, once \<^verbatim>\<open>np\<close> is resolved: the factorization,
  the two calls of \<^verbatim>\<open>print\<close>, whose output is not modelled, and the rest.
\<close>

definition QP_nullspace ::
  "np_lib \<Rightarrow> scope \<Rightarrow> real mat \<Rightarrow> real list \<Rightarrow> real mat \<Rightarrow> real list \<Rightarrow>
     py_error + real list \<times> real list" where
  "QP_nullspace np g B c A b =
     (let (q, r) = qr_complete np (transpose_m A) in
      bindE (lookup g ''print'') (\<lambda>p1. bindE (call_print p1) (\<lambda>_.
      bindE (lookup g ''print'') (\<lambda>p2. bindE (call_print p2) (\<lambda>_.
      bindE (lookup g ''m'') (\<lambda>mv. bindE (as_int mv) (\<lambda>mg.
      let Z = cols_from q (slice_idx (nc q) mg);
          Y = cols_upto q (slice_idx (nc q) mg);
          Rp = rows_upto r (slice_idx (nr r) mg) in
      bindE (np_lstsq np A (vscale (-1) b)) (\<lambda>x_special.
      bindE (np_matmul (transpose_m Z) B) (\<lambda>ZtB.
      bindE (np_matmul ZtB Z) (\<lambda>a_red.
      bindE (np_matvec (transpose_m Z) c) (\<lambda>Ztc.
      bindE (np_matvec ZtB x_special) (\<lambda>ZtBx.
      bindE (np_add Ztc ZtBx) (\<lambda>b_red.
      bindE (np_lstsq np a_red (vscale (-1) b_red)) (\<lambda>x_g.
      bindE (np_matvec Z x_g) (\<lambda>Zx.
      bindE (np_add Zx x_special) (\<lambda>xs.
      bindE (np_matvec B xs) (\<lambda>Bx.
      bindE (np_add Bx c) (\<lambda>Bxc.
      bindE (np_matvec (neg_m (transpose_m Y)) Bxc) (\<lambda>rhs.
      bindE (np_lstsq np Rp rhs) (\<lambda>lam.
      Inr (xs, lam)))))))))))))))))))))"

text \<open>The other branch, the "naive method", once \<^verbatim>\<open>np\<close> is resolved.\<close>

definition QP_naive ::
  "np_lib \<Rightarrow> scope \<Rightarrow> real mat \<Rightarrow> real list \<Rightarrow> real mat \<Rightarrow> real list \<Rightarrow>
     py_error + real list \<times> real list" where
  "QP_naive np g B c A b =
     bindE (lookup g ''n'') (\<lambda>nv.
     bindE (lookup g ''m'') (\<lambda>mv.
     bindE (as_int nv) (\<lambda>ng.
     bindE (as_int mv) (\<lambda>mg.
     if ng + mg < 0 then Inl ValueError
     else
       (let N = nat (ng + mg);
            s = slice_idx N ng in
        bindE (assign2 (zeros_m N N) 0 s 0 s B) (\<lambda>nA1.
        bindE (assign2 nA1 s N 0 s A) (\<lambda>nA2.
        bindE (assign2 nA2 0 s s N (transpose_m A)) (\<lambda>nA3.
        bindE (assign1 (replicate N 0) 0 s (vneg c)) (\<lambda>nb1.
        bindE (assign1 nb1 s N (vneg b)) (\<lambda>nb2.
        bindE (np_lstsq np nA3 nb2) (\<lambda>x_lambda.
        Inr (take (slice_idx (length x_lambda) ng) x_lambda,
             drop (slice_idx (length x_lambda) ng) x_lambda))))))))))))"

text \<open>\<^verbatim>\<open>QP\<close>, called in a scope \<open>g\<close>; both branches begin with an attribute of \<^verbatim>\<open>np\<close>.\<close>

definition QP ::
  "scope \<Rightarrow> real mat \<Rightarrow> real list \<Rightarrow> real mat \<Rightarrow> real list \<Rightarrow> string option \<Rightarrow>
     py_error + real list \<times> real list" where
  "QP g B c A b meth =
     (if meth = Some ''NullSpace''
      then bindE (lookup g ''np'') (\<lambda>v. bindE (as_numpy v) (\<lambda>np. QP_nullspace np g B c A b))
      else bindE (lookup g ''np'') (\<lambda>v. bindE (as_numpy v) (\<lambda>np. QP_naive np g B c A b)))"

subsection \<open>The contracts of the external calls\<close>

text \<open>
  \<^verbatim>\<open>np.linalg.qr(M, mode='complete')\<close>: a square orthogonal factor and an upper
  triangular factor of the shape of \<open>M\<close> whose product is \<open>M\<close>.
\<close>

definition upper_triangular :: "real mat \<Rightarrow> bool" where
  "upper_triangular R \<longleftrightarrow> (\<forall>i\<in>{..<nr R}. \<forall>j\<in>{..<nc R}. j < i \<longrightarrow> ent R i j = 0)"

definition qr_ok :: "real mat \<Rightarrow> real mat \<times> real mat \<Rightarrow> bool" where
  "qr_ok M qr \<longleftrightarrow>
     (case qr of (Q, R) \<Rightarrow>
        nr Q = nr M \<and> nc Q = nr M \<and> nr R = nr M \<and> nc R = nc M \<and>
        mat_eq (matmul (transpose_m Q) Q) (eye (nr M)) \<and>
        mat_eq (matmul Q (transpose_m Q)) (eye (nr M)) \<and>
        upper_triangular R \<and>
        mat_eq (matmul Q R) M)"

text \<open>
  \<^verbatim>\<open>np.linalg.lstsq(a, rhs)[0]\<close>: a vector with one entry per column of \<open>a\<close> that
  minimizes the sum of the squared residuals.
\<close>

definition sq_res :: "real mat \<Rightarrow> real list \<Rightarrow> real list \<Rightarrow> real" where
  "sq_res a z rhs = (\<Sum>i<nr a. (matvec a z ! i - rhs ! i)\<^sup>2)"

definition lstsq_ok :: "real mat \<Rightarrow> real list \<Rightarrow> real list \<Rightarrow> bool" where
  "lstsq_ok a rhs sol \<longleftrightarrow>
     length sol = nc a \<and> (\<forall>z. length z = nc a \<longrightarrow> sq_res a sol rhs \<le> sq_res a z rhs)"

text \<open>
  The calls the two branches make, for an \<open>n\<close>-variable problem with \<open>m\<close> constraints
  when the names \<^verbatim>\<open>n\<close> and \<^verbatim>\<open>m\<close> hold these numbers.
\<close>

definition null_basis :: "np_lib \<Rightarrow> real mat \<Rightarrow> real mat" where
  "null_basis np A = cols_from (fst (qr_complete np (transpose_m A))) (nr A)"

definition range_basis :: "np_lib \<Rightarrow> real mat \<Rightarrow> real mat" where
  "range_basis np A = cols_upto (fst (qr_complete np (transpose_m A))) (nr A)"

definition tri_factor :: "np_lib \<Rightarrow> real mat \<Rightarrow> real mat" where
  "tri_factor np A = rows_upto (snd (qr_complete np (transpose_m A))) (nr A)"

definition reduced_hessian :: "np_lib \<Rightarrow> real mat \<Rightarrow> real mat \<Rightarrow> real mat" where
  "reduced_hessian np B A =
     matmul (matmul (transpose_m (null_basis np A)) B) (null_basis np A)"

definition kkt_matrix :: "real mat \<Rightarrow> real mat \<Rightarrow> real mat" where
  "kkt_matrix B A =
     \<lparr>nr = nr B + nr A, nc = nr B + nr A,
      ent = (\<lambda>i j. if i < nr B \<and> nr B \<le> j \<and> j < nr B + nr A then ent A (j - nr B) i
                    else if nr B \<le> i \<and> i < nr B + nr A \<and> j < nr B then ent A (i - nr B) j
                    else if i < nr B \<and> j < nr B then ent B i j
                    else 0)\<rparr>"

definition kkt_rhs :: "real list \<Rightarrow> real list \<Rightarrow> real list" where
  "kkt_rhs c b = vneg c @ vneg b"

text \<open>The values of the local variables of the null-space branch.\<close>

definition ns_x_special :: "np_lib \<Rightarrow> real mat \<Rightarrow> real list \<Rightarrow> real list" where
  "ns_x_special np A b = lstsq np A (vscale (-1) b)"

definition ns_b_red :: "np_lib \<Rightarrow> real mat \<Rightarrow> real list \<Rightarrow> real mat \<Rightarrow> real list \<Rightarrow> real list" where
  "ns_b_red np B c A b =
     vadd (matvec (transpose_m (null_basis np A)) c)
          (matvec (matmul (transpose_m (null_basis np A)) B) (ns_x_special np A b))"

definition ns_x_g :: "np_lib \<Rightarrow> real mat \<Rightarrow> real list \<Rightarrow> real mat \<Rightarrow> real list \<Rightarrow> real list" where
  "ns_x_g np B c A b = lstsq np (reduced_hessian np B A) (vscale (-1) (ns_b_red np B c A b))"

definition ns_x :: "np_lib \<Rightarrow> real mat \<Rightarrow> real list \<Rightarrow> real mat \<Rightarrow> real list \<Rightarrow> real list" where
  "ns_x np B c A b = vadd (matvec (null_basis np A) (ns_x_g np B c A b)) (ns_x_special np A b)"

definition ns_rhs :: "np_lib \<Rightarrow> real mat \<Rightarrow> real list \<Rightarrow> real mat \<Rightarrow> real list \<Rightarrow> real list" where
  "ns_rhs np B c A b =
     matvec (neg_m (transpose_m (range_basis np A))) (vadd (matvec B (ns_x np B c A b)) c)"

definition ns_lambda :: "np_lib \<Rightarrow> real mat \<Rightarrow> real list \<Rightarrow> real mat \<Rightarrow> real list \<Rightarrow> real list" where
  "ns_lambda np B c A b = lstsq np (tri_factor np A) (ns_rhs np B c A b)"

text \<open>The external calls of each branch return what their contracts promise.\<close>

definition ns_contract :: "np_lib \<Rightarrow> real mat \<Rightarrow> real list \<Rightarrow> real mat \<Rightarrow> real list \<Rightarrow> bool" where
  "ns_contract np B c A b \<longleftrightarrow>
     qr_ok (transpose_m A) (qr_complete np (transpose_m A)) \<and>
     lstsq_ok A (vscale (-1) b) (ns_x_special np A b) \<and>
     lstsq_ok (reduced_hessian np B A) (vscale (-1) (ns_b_red np B c A b)) (ns_x_g np B c A b) \<and>
     lstsq_ok (tri_factor np A) (ns_rhs np B c A b) (ns_lambda np B c A b)"

definition naive_contract :: "np_lib \<Rightarrow> real mat \<Rightarrow> real list \<Rightarrow> real mat \<Rightarrow> real list \<Rightarrow> bool" where
  "naive_contract np B c A b \<longleftrightarrow>
     lstsq_ok (kkt_matrix B A) (kkt_rhs c b) (lstsq np (kkt_matrix B A) (kkt_rhs c b))"

text \<open>
  The hypotheses on the arguments: the shapes of a problem in \<open>nc A\<close> variables with
  \<open>nr A\<close> constraints, not more constraints than variables.
\<close>

definition qp_shapes :: "real mat \<Rightarrow> real list \<Rightarrow> real mat \<Rightarrow> real list \<Rightarrow> bool" where
  "qp_shapes B c A b \<longleftrightarrow>
     nr B = nc A \<and> nc B = nc A \<and> length c = nc A \<and> length b = nr A \<and> nr A \<le> nc A"

text \<open>
  The hypotheses on the scope of the call, for each branch: \<^verbatim>\<open>np\<close> is the module and
  the names that the branch reads hold what they stand for, \<^verbatim>\<open>m\<close> the number of rows of
  \<open>A\<close>, \<^verbatim>\<open>n\<close> its number of columns, \<^verbatim>\<open>print\<close> the builtin.
\<close>

definition ns_scope :: "scope \<Rightarrow> np_lib \<Rightarrow> real mat \<Rightarrow> bool" where
  "ns_scope g np A \<longleftrightarrow>
     g ''np'' = Some (NumpyV np) \<and> g ''print'' = Some PrintV \<and>
     g ''m'' = Some (IntV (int (nr A)))"

definition naive_scope :: "scope \<Rightarrow> np_lib \<Rightarrow> real mat \<Rightarrow> bool" where
  "naive_scope g np A \<longleftrightarrow>
     g ''np'' = Some (NumpyV np) \<and>
     g ''n'' = Some (IntV (int (nc A))) \<and> g ''m'' = Some (IntV (int (nr A)))"

text \<open>Linearly independent rows; a positive definite matrix; an invertible matrix.\<close>

definition full_row_rank :: "real mat \<Rightarrow> bool" where
  "full_row_rank A \<longleftrightarrow>
     (\<forall>v. length v = nr A \<and> vecmat v A = replicate (nc A) 0 \<longrightarrow> v = replicate (nr A) 0)"

definition positive_definite :: "real mat \<Rightarrow> bool" where
  "positive_definite M \<longleftrightarrow>
     nr M = nc M \<and>
     (\<forall>w. length w = nr M \<and> w \<noteq> replicate (nr M) 0 \<longrightarrow> 0 < dot w (matvec M w))"

definition nonsingular :: "real mat \<Rightarrow> bool" where
  "nonsingular M \<longleftrightarrow>
     nr M = nc M \<and>
     (\<exists>W. nr W = nr M \<and> nc W = nr M \<and>
          mat_eq (matmul M W) (eye (nr M)) \<and> mat_eq (matmul W M) (eye (nr M)))"

text \<open>What the naive branch gets back from \<^verbatim>\<open>lstsq\<close>.\<close>

definition na_x_lambda :: "np_lib \<Rightarrow> real mat \<Rightarrow> real list \<Rightarrow> real mat \<Rightarrow> real list \<Rightarrow> real list" where
  "na_x_lambda np B c A b = lstsq np (kkt_matrix B A) (kkt_rhs c b)"

text \<open>
  Reference versions of the two external calls, exact on the instances used below: the
  factorization of a matrix that is upper triangular already, and the solution of a
  system with a zero right-hand side or with a square invertible matrix (by elimination).
\<close>

definition qr_ref :: "real mat \<Rightarrow> real mat \<times> real mat" where
  "qr_ref M = (eye (nr M), M)"

fun gauss :: "nat \<Rightarrow> real list list \<Rightarrow> real list" where
  "gauss 0 rows = []"
| "gauss (Suc k) rows =
     (case filter (\<lambda>r. hd r \<noteq> 0) rows of
        [] \<Rightarrow> replicate (Suc k) 0
      | p # _ \<Rightarrow>
          (let p' = map (\<lambda>e. e / hd p) p;
               rest = map (\<lambda>r. tl (map2 (\<lambda>e pe. e - hd r * pe) r p')) (remove1 p rows);
               sol = gauss k rest
           in (last p' - sum_list (map2 (*) (butlast (tl p')) sol)) # sol))"

definition lstsq_ref :: "real mat \<Rightarrow> real list \<Rightarrow> real list" where
  "lstsq_ref a rhs =
     (if \<forall>e\<in>set rhs. e = 0 then replicate (nc a) 0
      else gauss (nc a) (map (\<lambda>i. row_of a i @ [rhs ! i]) [0..<nr a]))"

definition np_ref :: np_lib where
  "np_ref = \<lparr>qr_complete = qr_ref, lstsq = lstsq_ref\<rparr>"

text \<open>
  The scope of a module that imports \<^verbatim>\<open>np\<close> and assigns \<^verbatim>\<open>n\<close> and \<^verbatim>\<open>m\<close>, as the
  notebook does (with \<^verbatim>\<open>n = 7\<close> and \<^verbatim>\<open>m = 2\<close>) before it calls \<^verbatim>\<open>QP\<close>.
\<close>

definition env_nm :: "np_lib \<Rightarrow> int \<Rightarrow> int \<Rightarrow> scope" where
  "env_nm np nv mv =
     (\<lambda>name. if name = ''np'' then Some (NumpyV np)
             else if name = ''print'' then Some PrintV
             else if name = ''n'' then Some (IntV nv)
             else if name = ''m'' then Some (IntV mv)
             else None)"

text \<open>
  Two problems with \<open>B = I\<close> in three variables: one constraint \<open>x\<^sub>1 = 1\<close>; two
  constraints \<open>x\<^sub>1 = 1\<close>, \<open>x\<^sub>1 + x\<^sub>2 = 3\<close>.
\<close>

definition qp1_A :: "real mat" where "qp1_A = mat_of_rows 3 [[1, 0, 0]]"

definition qp1_c :: "real list" where "qp1_c = [1, 2, 0]"

definition qp1_b :: "real list" where "qp1_b = [- 1]"

definition qp2_A :: "real mat" where "qp2_A = mat_of_rows 3 [[1, 0, 0], [1, 1, 0]]"

definition qp2_c :: "real list" where "qp2_c = [0, 0, 5]"

definition qp2_b :: "real list" where "qp2_b = [- 1, - 3]"

text \<open>The inverse of the KKT matrix of the first problem.\<close>

definition qp1_kkt_inverse :: "real mat" where
  "qp1_kkt_inverse = mat_of_rows 4 [[0, 0, 0, 1], [0, 1, 0, 0], [0, 0, 1, 0], [1, 0, 0, - 1]]"


section \<open>Properties of the rounding\<close>

lemma two_powi_less: "(2::real) powi a < 2 powi b \<longleftrightarrow> a < b"
proof
  assume l: "(2::real) powi a < 2 powi b"
  show "a < b"
  proof (rule ccontr)
    assume "\<not> a < b"
    then have "b \<le> a" by simp
    then have "(2::real) powi b \<le> 2 powi a" by (intro power_int_increasing) simp_all
    with l show False by simp
  qed
next
  assume "a < b"
  then show "(2::real) powi a < 2 powi b" by (intro power_int_strict_increasing) simp_all
qed

lemma two_powi_le: "(2::real) powi a \<le> 2 powi b \<longleftrightarrow> a \<le> b"
  using two_powi_less[of b a] by (simp add: not_less[symmetric])

lemma tf_inf_not_Fin [simp]: "tf_inf p \<noteq> Fin w" "Fin w \<noteq> tf_inf p"
  by (cases p; simp)+

lemma two_pow_powi: "(2::real) ^ k * 2 powi (e - (int k - 1)) = 2 powi (e + 1)"
proof -
  have "(2::real) ^ k * 2 powi (e - (int k - 1)) = 2 powi (int k) * 2 powi (e - (int k - 1))"
    by simp
  also have "\<dots> = 2 powi (int k + (e - (int k - 1)))"
    by (rule power_int_add[symmetric]) simp
  also have "int k + (e - (int k - 1)) = e + 1" by simp
  finally show ?thesis .
qed

lemma fmt_facts: "emin fm \<le> - 126" "127 \<le> emax fm" "24 \<le> prec fm" "emin fm \<le> emax fm"
  by (cases fm; simp)+

lemma expo_down_bounds: "lo \<le> expo_down lo k a \<and> expo_down lo k a \<le> lo + int k"
  by (induction k) auto

lemma expo_down_lower: "expo_down lo k a = lo \<or> 2 powi (expo_down lo k a) \<le> a"
  by (induction k) auto

lemma expo_down_upper: "expo_down lo k a = lo + int k \<or> a < 2 powi (expo_down lo k a + 1)"
proof (induction k)
  case 0
  show ?case by simp
next
  case (Suc k)
  show ?case
  proof (cases "2 powi (lo + int (Suc k)) \<le> a")
    case True
    then show ?thesis by simp
  next
    case False
    then have a: "a < 2 powi (lo + int k + 1)" by (simp add: algebra_simps)
    from Suc show ?thesis
    proof
      assume "expo_down lo k a = lo + int k"
      with a False show ?thesis by simp
    next
      assume "a < 2 powi (expo_down lo k a + 1)"
      with False show ?thesis by simp
    qed
  qed
qed

lemma fl_expo_bounds: "emin fm \<le> fl_expo fm a" "fl_expo fm a \<le> emax fm"
  using expo_down_bounds[of "emin fm" "nat (emax fm - emin fm)" a] fmt_facts(4)[of fm]
  by (simp_all add: fl_expo_def)

lemma fl_expo_lower: "fl_expo fm a = emin fm \<or> 2 powi (fl_expo fm a) \<le> a"
  using expo_down_lower[of "emin fm" "nat (emax fm - emin fm)" a] by (simp add: fl_expo_def)

lemma fl_expo_upper: "fl_expo fm a = emax fm \<or> a < 2 powi (fl_expo fm a + 1)"
  using expo_down_upper[of "emin fm" "nat (emax fm - emin fm)" a] fmt_facts(4)[of fm]
  by (simp add: fl_expo_def)

lemma fl_expo_eq:
  assumes "emin fm \<le> e" "e \<le> emax fm" "2 powi e \<le> a" "a < 2 powi (e + 1)"
  shows "fl_expo fm a = e"
proof (rule ccontr)
  assume ne: "fl_expo fm a \<noteq> e"
  show False
  proof (cases "fl_expo fm a < e")
    case True
    with assms(2) have "fl_expo fm a \<noteq> emax fm" by simp
    with fl_expo_upper[of fm a] have "a < 2 powi (fl_expo fm a + 1)" by simp
    also from True have "\<dots> \<le> 2 powi e" by (simp add: two_powi_le)
    finally show False using assms(3) by simp
  next
    case False
    with ne have gt: "e < fl_expo fm a" by simp
    with assms(1) have "fl_expo fm a \<noteq> emin fm" by simp
    with fl_expo_lower[of fm a] have "2 powi (fl_expo fm a) \<le> a" by simp
    moreover from gt have "(2::real) powi (e + 1) \<le> 2 powi (fl_expo fm a)"
      by (simp add: two_powi_le)
    ultimately show False using assms(4) by simp
  qed
qed

lemma fl_expo_top: "2 powi (emax fm) \<le> a \<Longrightarrow> fl_expo fm a = emax fm"
proof (rule ccontr)
  assume a: "2 powi (emax fm) \<le> a" and ne: "fl_expo fm a \<noteq> emax fm"
  with fl_expo_upper[of fm a] have "a < 2 powi (fl_expo fm a + 1)" by simp
  also from ne fl_expo_bounds(2)[of fm a] have "\<dots> \<le> 2 powi (emax fm)"
    by (simp add: two_powi_le)
  finally show False using a by simp
qed

lemma round_even_int [simp]: "round_even (of_int n) = n"
  by (simp add: round_even_def)

lemma round_even_near: "\<bar>of_int (round_even z) - z\<bar> \<le> 1/2"
proof -
  have "of_int \<lfloor>z\<rfloor> \<le> z" "z < of_int \<lfloor>z\<rfloor> + 1" by linarith+
  then show ?thesis by (auto simp: round_even_def Let_def)
qed

lemma round_even_ge: "of_int n \<le> z \<Longrightarrow> n \<le> round_even z"
proof -
  assume "of_int n \<le> z"
  then have "n \<le> \<lfloor>z\<rfloor>" by (simp add: le_floor_iff)
  then show ?thesis by (auto simp: round_even_def Let_def)
qed

lemma round_even_le: "z \<le> of_int n \<Longrightarrow> round_even z \<le> n"
proof -
  assume a: "z \<le> of_int n"
  then have k: "\<lfloor>z\<rfloor> \<le> n" by (simp add: floor_le_iff)
  show ?thesis
  proof (cases "\<lfloor>z\<rfloor> = n")
    case True
    with a of_int_floor_le[of z] have "z = of_int \<lfloor>z\<rfloor>" by simp
    then have "round_even z = \<lfloor>z\<rfloor>" by (metis round_even_int floor_of_int)
    with True show ?thesis by simp
  next
    case False
    with k have "\<lfloor>z\<rfloor> + 1 \<le> n" by simp
    then show ?thesis by (auto simp: round_even_def Let_def)
  qed
qed

text \<open>A number of the format is its own rounding.\<close>

lemma fl_round_dyadic:
  assumes q: "emin fm - int (prec fm) + 1 \<le> q" and n: "\<bar>n\<bar> < 2 ^ prec fm"
    and b: "\<bar>of_int n * 2 powi q\<bar> < (2::real) powi (emax fm + 1)"
  shows "fl_round fm (of_int n * 2 powi q) = Fin (of_int n * 2 powi q)"
proof -
  define r where "r = of_int n * (2::real) powi q"
  define e where "e = fl_expo fm \<bar>r\<bar>"
  define q' where "q' = e - (int (prec fm) - 1)"
  have "q' \<le> q"
  proof (cases "e = emin fm")
    case True
    then show ?thesis using q by (simp add: q'_def)
  next
    case False
    then have "2 powi e \<le> \<bar>r\<bar>" using fl_expo_lower[of fm "\<bar>r\<bar>"] by (simp add: e_def)
    also have "\<bar>r\<bar> = of_int \<bar>n\<bar> * 2 powi q" by (simp add: r_def abs_mult)
    also have "\<dots> < 2 ^ prec fm * 2 powi q"
    proof (intro mult_strict_right_mono)
      from n have "(of_int \<bar>n\<bar> :: real) < of_int (2 ^ prec fm)" by (simp only: of_int_less_iff)
      then show "(of_int \<bar>n\<bar> :: real) < 2 ^ prec fm" by simp
    qed simp
    also have "\<dots> = 2 powi (int (prec fm) + q)" by (simp add: power_int_add)
    finally have "e < int (prec fm) + q" by (simp add: two_powi_less)
    then show ?thesis by (simp add: q'_def)
  qed
  then obtain d :: nat where d: "q = q' + int d"
    by (metis zle_iff_zadd)
  have "r / 2 powi q' = of_int (n * 2 ^ d)"
    by (simp add: r_def d power_int_add)
  then have "round_even (r / 2 powi q') = n * 2 ^ d" by (simp only: round_even_int)
  then have v: "of_int (round_even (r / 2 powi q')) * 2 powi q' = r"
    by (simp add: r_def d power_int_add)
  have "fl_round fm r = Fin r"
    using b unfolding fl_round_def Let_def e_def[symmetric] q'_def[symmetric] v
    by (simp add: r_def)
  then show ?thesis by (simp add: r_def)
qed

text \<open>A finite result of rounding is a number of the format.\<close>

lemma fl_round_fin_form:
  assumes "fl_round fm r = Fin w"
  shows "\<exists>n q. emin fm - int (prec fm) + 1 \<le> q \<and> \<bar>n\<bar> < 2 ^ prec fm \<and>
           w = of_int n * 2 powi q \<and> \<bar>w\<bar> < 2 powi (emax fm + 1)"
proof -
  define e where "e = fl_expo fm \<bar>r\<bar>"
  define q where "q = e - (int (prec fm) - 1)"
  define N where "N = round_even (r / 2 powi q)"
  have w: "w = of_int N * 2 powi q" and bd: "\<bar>w\<bar> < 2 powi (emax fm + 1)"
    using assms unfolding fl_round_def Let_def e_def[symmetric] q_def[symmetric] N_def[symmetric]
    by (auto split: if_splits)
  have ql: "emin fm - int (prec fm) + 1 \<le> q"
    using fl_expo_bounds(1)[of fm "\<bar>r\<bar>"] by (simp add: q_def e_def)
  have pq: "(2::real) ^ prec fm * 2 powi q = 2 powi (e + 1)"
    unfolding q_def by (rule two_pow_powi)
  have Nle: "\<bar>N\<bar> \<le> 2 ^ prec fm"
  proof (cases "e = emax fm")
    case True
    have "of_int \<bar>N\<bar> * 2 powi q < (2::real) ^ prec fm * 2 powi q"
      using bd True pq by (simp add: w abs_mult)
    then have "(of_int \<bar>N\<bar> :: real) < 2 ^ prec fm" by (simp add: mult_less_cancel_right)
    then have "(of_int \<bar>N\<bar> :: real) < of_int (2 ^ prec fm)" by simp
    then show ?thesis by (simp only: of_int_less_iff)
  next
    case False
    then have "\<bar>r\<bar> < 2 powi (e + 1)" using fl_expo_upper[of fm "\<bar>r\<bar>"] by (simp add: e_def)
    then have "\<bar>r\<bar> < 2 ^ prec fm * 2 powi q" by (simp add: pq)
    then have ab: "\<bar>r / 2 powi q\<bar> < 2 ^ prec fm"
      by (simp add: abs_divide divide_less_eq)
    have "r / 2 powi q \<le> of_int (2 ^ prec fm)"
      by (simp only: of_int_power of_int_numeral) (use ab in linarith)
    moreover have "of_int (- (2 ^ prec fm)) \<le> r / 2 powi q"
      by (simp only: of_int_minus of_int_power of_int_numeral) (use ab in linarith)
    ultimately have "r / 2 powi q \<le> of_int (2 ^ prec fm)" "of_int (- (2 ^ prec fm)) \<le> r / 2 powi q"
      by blast+
    then have "N \<le> 2 ^ prec fm" "- (2 ^ prec fm) \<le> N"
      unfolding N_def using round_even_le round_even_ge by blast+
    then show ?thesis by simp
  qed
  show ?thesis
  proof (cases "\<bar>N\<bar> < 2 ^ prec fm")
    case True
    with ql w bd show ?thesis by blast
  next
    case False
    with Nle have "\<bar>N\<bar> = 2 ^ prec fm" by simp
    then have "N = 2 ^ prec fm \<or> N = - (2 ^ prec fm)" by (auto simp: abs_if split: if_splits)
    then have "w = of_int 1 * 2 powi (q + int (prec fm)) \<or> w = of_int (- 1) * 2 powi (q + int (prec fm))"
      by (auto simp: w power_int_add)
    moreover have "emin fm - int (prec fm) + 1 \<le> q + int (prec fm)" using ql by simp
    moreover have "\<bar>1::int\<bar> < 2 ^ prec fm" "\<bar>- 1::int\<bar> < 2 ^ prec fm"
      using fmt_facts(3)[of fm] by (simp_all add: one_less_power)
    ultimately show ?thesis using bd by blast
  qed
qed

lemma fl_round_idem: "fl_round fm r = Fin w \<Longrightarrow> fl_round fm w = Fin w"
  using fl_round_fin_form[of fm r w] fl_round_dyadic[of fm] by auto

text \<open>Overflow.\<close>

lemma fl_round_overflow:
  assumes "2 powi (emax fm + 1) \<le> \<bar>r\<bar>"
  shows "fl_round fm r = tf_inf (0 < r)"
proof -
  have "(2::real) powi (emax fm) \<le> 2 powi (emax fm + 1)" by (simp add: two_powi_le)
  with assms have e: "fl_expo fm \<bar>r\<bar> = emax fm" by (intro fl_expo_top) simp
  define q where "q = emax fm - (int (prec fm) - 1)"
  define N where "N = round_even (r / 2 powi q)"
  have pq: "(2::real) ^ prec fm * 2 powi q = 2 powi (emax fm + 1)"
    unfolding q_def by (rule two_pow_powi)
  have "2 ^ prec fm \<le> \<bar>r / 2 powi q\<bar>"
    using assms by (simp add: abs_divide le_divide_eq pq)
  then have "of_int (2 ^ prec fm) \<le> r / 2 powi q \<or> r / 2 powi q \<le> of_int (- (2 ^ prec fm))"
    by (auto simp: abs_if split: if_splits)
  then have "2 ^ prec fm \<le> N \<or> N \<le> - (2 ^ prec fm)"
    unfolding N_def using round_even_ge round_even_le by blast
  then have "2 ^ prec fm \<le> \<bar>N\<bar>" by auto
  then have "(of_int (2 ^ prec fm) :: real) \<le> of_int \<bar>N\<bar>" by (simp only: of_int_le_iff)
  then have "(2::real) ^ prec fm * 2 powi q \<le> of_int \<bar>N\<bar> * 2 powi q"
    by (intro mult_right_mono) simp_all
  then have "2 powi (emax fm + 1) \<le> \<bar>of_int N * (2::real) powi q\<bar>"
    by (simp add: pq abs_mult)
  then show ?thesis
    unfolding fl_round_def Let_def e q_def[symmetric] N_def[symmetric] by simp
qed

text \<open>The rounding error is at most half a unit in the last place.\<close>

lemma fl_round_error:
  assumes "fl_round fm r = Fin w"
  shows "\<bar>w - r\<bar> \<le> 2 powi (fl_expo fm \<bar>r\<bar> - int (prec fm))"
proof -
  define q where "q = fl_expo fm \<bar>r\<bar> - (int (prec fm) - 1)"
  define N where "N = round_even (r / 2 powi q)"
  have w: "w = of_int N * 2 powi q"
    using assms unfolding fl_round_def Let_def q_def[symmetric] N_def[symmetric]
    by (auto split: if_splits)
  have "w - r = (of_int N - r / 2 powi q) * 2 powi q" by (simp add: w algebra_simps)
  then have "\<bar>w - r\<bar> = \<bar>of_int N - r / 2 powi q\<bar> * 2 powi q" by (simp add: abs_mult)
  also have "\<dots> \<le> 1/2 * 2 powi q"
    unfolding N_def by (intro mult_right_mono round_even_near) simp
  also have "\<dots> = 2 powi (fl_expo fm \<bar>r\<bar> - int (prec fm))"
    by (simp add: q_def power_int_diff)
  finally show ?thesis .
qed

lemma fl_round_unit:
  assumes "\<bar>r\<bar> \<le> 1"
  shows "\<exists>w. fl_round fm r = Fin w \<and> \<bar>w - r\<bar> \<le> 2 powi (- int (prec fm))"
proof -
  define e where "e = fl_expo fm \<bar>r\<bar>"
  have e0: "e \<le> 0"
  proof (cases "e = emin fm")
    case True
    then show ?thesis using fmt_facts(1)[of fm] by simp
  next
    case False
    then have "2 powi e \<le> \<bar>r\<bar>" using fl_expo_lower[of fm "\<bar>r\<bar>"] by (simp add: e_def)
    with assms have "(2::real) powi e \<le> 2 powi 0" by simp
    then show ?thesis by (simp only: two_powi_le)
  qed
  define q where "q = e - (int (prec fm) - 1)"
  define v where "v = of_int (round_even (r / 2 powi q)) * (2::real) powi q"
  have "v - r = (of_int (round_even (r / 2 powi q)) - r / 2 powi q) * 2 powi q"
    by (simp add: v_def algebra_simps)
  then have "\<bar>v - r\<bar> = \<bar>of_int (round_even (r / 2 powi q)) - r / 2 powi q\<bar> * 2 powi q"
    by (simp add: abs_mult)
  also have "\<dots> \<le> 1/2 * 2 powi q"
    by (intro mult_right_mono round_even_near) simp
  also have "\<dots> = 2 powi (e - int (prec fm))" by (simp add: q_def power_int_diff)
  also have "\<dots> \<le> 2 powi (- int (prec fm))" using e0 by (simp add: two_powi_le)
  finally have err: "\<bar>v - r\<bar> \<le> 2 powi (- int (prec fm))" .
  have "(2::real) powi (- int (prec fm)) \<le> 2 powi (- 1)"
    using fmt_facts(3)[of fm] by (subst two_powi_le) simp
  then have "(2::real) powi (- int (prec fm)) \<le> 1/2" by (simp add: power_int_minus)
  with err assms have "\<bar>v\<bar> < 2 powi 1" by simp
  also have "\<dots> \<le> 2 powi (emax fm + 1)"
    using fmt_facts(2)[of fm] by (subst two_powi_le) simp
  finally have "\<not> 2 powi (emax fm + 1) \<le> \<bar>v\<bar>" by simp
  then have "fl_round fm r = Fin v"
    unfolding fl_round_def Let_def e_def[symmetric] q_def[symmetric] v_def[symmetric] by simp
  with err show ?thesis by blast
qed

text \<open>The rounding of a number whose binade is known.\<close>

lemma fl_round_at:
  assumes "emin fm \<le> e" "e \<le> emax fm" "2 powi e \<le> \<bar>r\<bar>" "\<bar>r\<bar> < 2 powi (e + 1)"
  shows "fl_round fm r =
     (let q = e - (int (prec fm) - 1);
          v = of_int (round_even (r / 2 powi q)) * 2 powi q
      in if 2 powi (emax fm + 1) \<le> \<bar>v\<bar> then tf_inf (0 < r) else Fin v)"
  by (simp add: fl_round_def fl_expo_eq[OF assms])


section \<open>Computing with tensor entries\<close>

lemma Fin_arith [simp]:
  "Fin a + Fin b = fl_round Binary32 (a + b)"
  "Fin a - Fin b = fl_round Binary32 (a - b)"
  "Fin a * Fin b = fl_round Binary32 (a * b)"
  "- Fin a = Fin (- a)"
  "(0::tfloat) = Fin 0"
  "(1::tfloat) = Fin 1"
  by (simp_all add: plus_tfloat_def minus_tfloat_def times_tfloat_def uminus_tfloat_def
      zero_tfloat_def one_tfloat_def tf_add_def tf_mul_def)

lemma Fin_div [simp]:
  "Fin a / Fin b =
     (if b \<noteq> 0 then fl_round Binary32 (a / b) else if a = 0 then NaN else tf_inf (0 < a))"
  by (simp add: divide_tfloat_def tf_div_def)

lemma fl_round_frac:
  assumes "\<bar>n\<bar> < 2 ^ 24" "k \<le> 126"
  shows "fl_round fm (of_int n / 2 ^ k) = Fin (of_int n / 2 ^ k)"
proof -
  have e: "of_int n * (2::real) powi (- int k) = of_int n / 2 ^ k"
    by (simp add: power_int_minus field_simps)
  have "(2::int) ^ 24 \<le> 2 ^ prec fm"
    using fmt_facts(3)[of fm] by (intro power_increasing) simp_all
  with assms(1) have n: "\<bar>n\<bar> < 2 ^ prec fm" by simp
  have "\<bar>of_int n / (2::real) ^ k\<bar> \<le> \<bar>of_int n\<bar>"
    by (simp add: abs_divide divide_le_eq mult_le_cancel_left1)
  also have "\<dots> = of_int \<bar>n\<bar>" by simp
  also from assms(1) have "\<dots> < of_int (2 ^ 24)" by (simp only: of_int_less_iff)
  also have "\<dots> = 2 powi 24" by simp
  also have "\<dots> \<le> 2 powi (emax fm + 1)"
    using fmt_facts(2)[of fm] by (subst two_powi_le) simp
  finally have b: "\<bar>of_int n * (2::real) powi (- int k)\<bar> < 2 powi (emax fm + 1)"
    by (simp only: e)
  have q: "emin fm - int (prec fm) + 1 \<le> - int k"
    using assms(2) by (cases fm) simp_all
  from fl_round_dyadic[OF q n b] show ?thesis by (simp only: e)
qed

lemma fl_round_small [simp]:
  "fl_round fm 0 = Fin 0"
  "fl_round fm 1 = Fin 1"
  "fl_round fm (- 1) = Fin (- 1)"
  "numeral w < (16777216::int) \<Longrightarrow> fl_round fm (numeral w) = Fin (numeral w)"
  "numeral w < (16777216::int) \<Longrightarrow> fl_round fm (- numeral w) = Fin (- numeral w)"
  using fl_round_frac[of 0 0 fm] fl_round_frac[of 1 0 fm] fl_round_frac[of "- 1" 0 fm]
    fl_round_frac[of "numeral w" 0 fm] fl_round_frac[of "- numeral w" 0 fm]
  by simp_all

lemma fl_round_halves [simp]:
  "fl_round fm (1/2) = Fin (1/2)"
  "fl_round fm (3/2) = Fin (3/2)"
  "fl_round fm (1/8) = Fin (1/8)"
  "fl_round fm (1/16) = Fin (1/16)"
  using fl_round_frac[of 1 1 fm] fl_round_frac[of 3 1 fm] fl_round_frac[of 1 3 fm]
    fl_round_frac[of 1 4 fm]
  by simp_all

lemma lsum_1 [simp]: "lsum h (Suc 0) = 0 + h 0"
  by simp

lemma lsum_2: "lsum h 2 = 0 + h 0 + h 1"
  by (simp add: numeral_2_eq_2)

lemma mat_of_rows_shape [simp]:
  "nr (mat_of_rows c rows) = length rows" "nc (mat_of_rows c rows) = c"
  by (simp_all add: mat_of_rows_def)

lemma flat_column [simp]:
  "flat (mat_of_rows (Suc 0) [[a]]) = [a]"
  "flat (mat_of_rows (Suc 0) [[a], [b]]) = [a, b]"
  by (simp_all add: flat_def mat_of_rows_def row_of_def upt_rec[of 0 2] upt_rec[of 1 2])

lemma py_literals:
  "py_lit (1/10) = Fin (3602879701896397/36028797018963968)"
  "py_lit (4/5) = Fin (3602879701896397/4503599627370496)"
  "py_val (1/1000) = 1152921504606847/1152921504606846976"
  "py_val (1/10000) = 7378697629483821/73786976294838206464"
  unfolding py_lit_def py_val_def
  by (subst fl_round_at[where e = "-4"], simp_all add: round_even_def Let_def power_int_minus,
      subst fl_round_at[where e = "-1"], simp_all add: round_even_def Let_def power_int_minus,
      subst fl_round_at[where e = "-10"], simp_all add: round_even_def Let_def power_int_minus,
      subst fl_round_at[where e = "-14"], simp_all add: round_even_def Let_def power_int_minus)

section \<open>The line search\<close>

text \<open>
  If the loop condition holds at every step length of a set that contains the first
  one and with a step length its shrinking, the loop never exits.
\<close>

lemma backtrack_never_exits:
  assumes inv: "\<And>t. P t \<Longrightarrow>
      search_continues fsq xc gradf dx t \<and> P (py_mul (py_lit (8/10)) t)"
    and start: "P t0"
  shows "backtrack fsq xc gradf dx t0 = None"
proof (cases "backtrack fsq xc gradf dx t0")
  case (Some r)
  have "\<not> (fsq = fsq \<and> xc = xc \<and> gradf = gradf \<and> dx = dx \<and> P t0)"
  proof (rule backtrack.raw_induct[where P = "\<lambda>a b c d t r.
           \<not> (a = fsq \<and> b = xc \<and> c = gradf \<and> d = dx \<and> P t)", OF _ Some])
    fix bt a b c d t r
    assume IH: "\<And>a b c d t r. bt a b c d t = Some r \<Longrightarrow>
             \<not> (a = fsq \<and> b = xc \<and> c = gradf \<and> d = dx \<and> P t)"
      and eq: "(if search_continues a b c d t then bt a b c d (py_mul (py_lit (8/10)) t)
                else Some t) = Some r"
    show "\<not> (a = fsq \<and> b = xc \<and> c = gradf \<and> d = dx \<and> P t)"
    proof
      assume h: "a = fsq \<and> b = xc \<and> c = gradf \<and> d = dx \<and> P t"
      with inv[of t] have sc: "search_continues a b c d t" and P': "P (py_mul (py_lit (8/10)) t)"
        by simp_all
      with eq have "bt a b c d (py_mul (py_lit (8/10)) t) = Some r" by simp
      from IH[OF this] h P' show False by simp
    qed
  qed
  with start show ?thesis by simp
qed simp

text \<open>Below the floor the second disjunct of the condition is true.\<close>

lemma search_continues_below_floor:
  "tf_less t (py_lit (1/10)) \<Longrightarrow> search_continues fsq xc gradf dx t"
  by (simp add: search_continues_def)

text \<open>Step lengths between \<open>-1\<close> and 1 stay there, and stay finite, when they shrink.\<close>

lemma shrink_unit:
  assumes "\<bar>r\<bar> \<le> 1"
  shows "\<exists>w. py_mul (py_lit (8/10)) (Fin r) = Fin w \<and> \<bar>w\<bar> \<le> 1"
proof -
  let ?c = "3602879701896397/4503599627370496 :: real"
  have cr: "\<bar>?c * r\<bar> \<le> ?c" using assms by (simp add: abs_mult)
  then have "\<bar>?c * r\<bar> \<le> 1" by simp
  from fl_round_unit[OF this, of Binary64] obtain w where
    w: "fl_round Binary64 (?c * r) = Fin w" "\<bar>w - ?c * r\<bar> \<le> 2 powi (- int (prec Binary64))"
    by blast
  have e: "(2::real) powi (- int (prec Binary64)) \<le> 1/10" by (simp add: power_int_minus)
  have "\<bar>w\<bar> \<le> \<bar>w - ?c * r\<bar> + \<bar>?c * r\<bar>" by linarith
  also have "\<dots> \<le> 1/10 + ?c" using w(2) e cr by linarith
  finally have "\<bar>w\<bar> \<le> 1" by simp
  with w(1) show ?thesis by (simp add: py_literals py_mul_def)
qed

lemma scaled_unit:
  assumes "\<bar>r\<bar> \<le> 1"
  shows "\<exists>w. to_f32 (py_mul (py_lit (1/10)) (Fin r)) = Fin w"
proof -
  let ?c = "3602879701896397/36028797018963968 :: real"
  have cr: "\<bar>?c * r\<bar> \<le> ?c" using assms by (simp add: abs_mult)
  then have "\<bar>?c * r\<bar> \<le> 1" by simp
  from fl_round_unit[OF this, of Binary64] obtain u where
    u: "fl_round Binary64 (?c * r) = Fin u" "\<bar>u - ?c * r\<bar> \<le> 2 powi (- int (prec Binary64))"
    by blast
  have e: "(2::real) powi (- int (prec Binary64)) \<le> 1/10" by (simp add: power_int_minus)
  have "\<bar>u\<bar> \<le> \<bar>u - ?c * r\<bar> + \<bar>?c * r\<bar>" by linarith
  also have "\<dots> \<le> 1/10 + ?c" using u(2) e cr by linarith
  finally have "\<bar>u\<bar> \<le> 1" by simp
  from fl_round_unit[OF this, of Binary32] u(1) show ?thesis
    by (auto simp: py_literals py_mul_def)
qed

text \<open>At a zero gradient and a zero step the sufficient-decrease test fails.\<close>

lemma zero_step_armijo:
  assumes "\<bar>r\<bar> \<le> 1"
  shows "armijo_fails (f_sq_err (\<lambda>v. v)) [Fin 0] [Fin 0] [Fin 0] (Fin r)"
proof -
  from fl_round_unit[OF assms, of Binary32] obtain w where w: "fl_round Binary32 r = Fin w"
    by blast
  from scaled_unit[OF assms] obtain u where u: "to_f32 (py_mul (py_lit (1/10)) (Fin r)) = Fin u"
    by blast
  show ?thesis
    unfolding armijo_fails_def u
    by (simp add: w f_sq_err_def reduce_sum_def vadd_def vscale_def dot_def)
qed

lemma zero_step_search:
  "backtrack (f_sq_err (\<lambda>v. v)) [Fin 0] [Fin 0] [Fin 0] (Fin 1) = None"
proof (rule backtrack_never_exits[where P = "\<lambda>t. \<exists>r. t = Fin r \<and> \<bar>r\<bar> \<le> 1"])
  fix t assume "\<exists>r. t = Fin r \<and> \<bar>r\<bar> \<le> 1"
  then obtain r where r: "t = Fin r" "\<bar>r\<bar> \<le> 1" by blast
  from shrink_unit[OF r(2)] zero_step_armijo[OF r(2)]
  show "search_continues (f_sq_err (\<lambda>v. v)) [Fin 0] [Fin 0] [Fin 0] t \<and>
        (\<exists>r. py_mul (py_lit (8/10)) t = Fin r \<and> \<bar>r\<bar> \<le> 1)"
    by (simp add: r(1) search_continues_def)
qed simp

lemma stationary_gn_fields:
  "x stationary_gn = [Fin 0]" "m stationary_gn = 1" "f stationary_gn = (\<lambda>v. v)"
  "fs stationary_gn = f_sq_err (\<lambda>v. v)" "opt_method stationary_gn = GN"
  "globalized stationary_gn" "alpha stationary_gn = 0"
  by (simp_all add: stationary_gn_def init_def)

lemma stationary_gn_gradient: "gradient tf_quad stationary_gn = [Fin 0]"
  by (simp add: gradient_def stationary_gn_fields jacob_def tf_quad_def
      quad_jacobian_def matvec_def transpose_m_def)

lemma stationary_gn_step:
  "curvature tf_quad stationary_gn B0 = Inr B \<Longrightarrow> raw_step tf_quad B [Fin 0] = [Fin 0]"
  by (auto simp add: curvature_def stationary_gn_fields jacob_def tf_quad_def
      quad_jacobian_def matvec_def transpose_m_def raw_step_def pinv_diag_def add_m_def
      matmul_def smul_m_def eye_def vneg_def fin_mat_def)

lemma stationary_gn_iteration: "iteration tf_quad stationary_gn B0 = None"
proof (cases "curvature tf_quad stationary_gn B0")
  case (Inl e)
  then show ?thesis by (simp add: curvature_def stationary_gn_fields)
next
  case (Inr B)
  show ?thesis
    using Inr stationary_gn_step[OF Inr] zero_step_search
    by (simp add: iteration_def stationary_gn_gradient stationary_gn_fields)
qed

text \<open>
  C1 (Armijo backtracking terminates, at the latest once \<open>t\<close> is below 0.1).
  The loop condition is \<^verbatim>\<open>armijo fails or t < 0.1\<close>: a step length below the floor keeps
  the loop running instead of ending it. Started at a stationary point, where the step
  is zero and the sufficient-decrease test can never succeed, the line search and with it
  \<^verbatim>\<open>optimize\<close> never return.
\<close>

theorem line_search_never_returns_at_stationary_point:
  "optimize tf_quad stationary_gn 100 = None"
  unfolding optimize_def
  by (subst opt_loop.simps) (simp add: stationary_gn_iteration)

text \<open>
  Once the step length is below the floor it stays there, so the loop runs forever
  whatever the sufficient-decrease test says.
\<close>

lemma fl_round_nonpos:
  assumes "r \<le> 0" "0 < c"
  shows "tf_less (fl_round fm r) (Fin c)"
proof -
  define q where "q = fl_expo fm \<bar>r\<bar> - (int (prec fm) - 1)"
  have "r / 2 powi q \<le> of_int 0" using assms(1) by (simp add: divide_nonpos_pos)
  then have "round_even (r / 2 powi q) \<le> 0" by (rule round_even_le)
  then have "(of_int (round_even (r / 2 powi q)) :: real) \<le> 0" by simp
  then have "of_int (round_even (r / 2 powi q)) * (2::real) powi q \<le> 0"
    by (simp add: mult_nonpos_nonneg)
  with assms show ?thesis
    unfolding fl_round_def Let_def q_def[symmetric] by simp
qed

lemma below_floor_stays:
  assumes "tf_less t (py_lit (1/10))"
  shows "tf_less (py_mul (py_lit (8/10)) t) (py_lit (1/10))"
proof (cases t)
  case (Fin r)
  let ?c = "3602879701896397/4503599627370496 :: real"
  let ?fl = "3602879701896397/36028797018963968 :: real"
  from assms Fin have r: "r < ?fl" by (simp add: py_literals)
  show ?thesis
  proof (cases "r \<le> 0")
    case True
    then have "?c * r \<le> 0" by (simp add: mult_nonneg_nonpos)
    from fl_round_nonpos[OF this, of ?fl Binary64] show ?thesis
      by (simp add: Fin py_literals py_mul_def)
  next
    case False
    with r have cr: "\<bar>?c * r\<bar> \<le> 1" "?c * r \<le> 9/100" by (simp_all add: abs_mult)
    from fl_round_unit[OF cr(1), of Binary64] obtain w where
      w: "fl_round Binary64 (?c * r) = Fin w" "\<bar>w - ?c * r\<bar> \<le> 2 powi (- int (prec Binary64))"
      by blast
    have e: "(2::real) powi (- int (prec Binary64)) \<le> 1/1000" by (simp add: power_int_minus)
    have "w \<le> \<bar>w - ?c * r\<bar> + ?c * r" by linarith
    also have "\<dots> \<le> 1/1000 + 9/100" using w(2) e cr(2) by linarith
    also have "\<dots> < ?fl" by simp
    finally show ?thesis using w(1) by (simp add: Fin py_literals py_mul_def)
  qed
next
  case NInf
  then show ?thesis by (simp add: py_literals py_mul_def)
qed (use assms in \<open>simp_all add: py_literals\<close>)

lemma backtrack_below_floor:
  assumes "tf_less t (py_lit (1/10))"
  shows "backtrack fsq xc gradf dx t = None"
proof (rule backtrack_never_exits[where P = "\<lambda>t. tf_less t (py_lit (1/10))"])
  fix t assume a: "tf_less t (py_lit (1/10))"
  from below_floor_stays[OF a] a
  show "search_continues fsq xc gradf dx t \<and>
        tf_less (py_mul (py_lit (8/10)) t) (py_lit (1/10))"
    unfolding search_continues_def by blast
qed (rule assms)


section \<open>The main loop\<close>

lemma opt_loop_sound:
  "opt_loop tf max_it self B i = Some (Inr (self', rep)) \<Longrightarrow>
   \<exists>k B' dx. pass tf k self B = Some (Inr (self', B', dx)) \<and>
      exits self' max_it (i + 1 + int k) dx \<and>
      (\<forall>j<k. \<forall>s Bj dxj. pass tf j self B = Some (Inr (s, Bj, dxj)) \<longrightarrow>
           \<not> exits s max_it (i + 1 + int j) dxj) \<and>
      rep = leave self' max_it (i + 1 + int k)"
proof (induction tf max_it self B i rule: opt_loop.induct)
  case (1 tf max_it self B i)
  from "1.prems" obtain s1 B1 dx1 where it: "iteration tf self B = Some (Inr (s1, B1, dx1))"
    by (subst (asm) opt_loop.simps) (auto split: option.splits sum.splits)
  show ?case
  proof (cases "exits s1 max_it (i + 1) dx1")
    case True
    with "1.prems" it have "self' = s1" "rep = leave s1 max_it (i + 1)"
      by (subst (asm) opt_loop.simps, simp)+
    with it True show ?thesis
      by (intro exI[of _ 0] exI[of _ B1] exI[of _ dx1]) simp
  next
    case False
    with "1.prems" it have "opt_loop tf max_it s1 B1 (i + 1) = Some (Inr (self', rep))"
      by (subst (asm) opt_loop.simps) simp
    from "1.IH"[OF it refl refl refl False this]
    obtain k B' dx where k: "pass tf k s1 B1 = Some (Inr (self', B', dx))"
      "exits self' max_it (i + 1 + 1 + int k) dx"
      "\<forall>j<k. \<forall>s Bj dxj. pass tf j s1 B1 = Some (Inr (s, Bj, dxj)) \<longrightarrow>
           \<not> exits s max_it (i + 1 + 1 + int j) dxj"
      "rep = leave self' max_it (i + 1 + 1 + int k)" by blast
    have "\<forall>j<Suc k. \<forall>s Bj dxj. pass tf j self B = Some (Inr (s, Bj, dxj)) \<longrightarrow>
           \<not> exits s max_it (i + 1 + int j) dxj"
    proof (intro allI impI)
      fix j s Bj dxj assume j: "j < Suc k" and p: "pass tf j self B = Some (Inr (s, Bj, dxj))"
      show "\<not> exits s max_it (i + 1 + int j) dxj"
      proof (cases j)
        case 0
        with p it False show ?thesis by simp
      next
        case (Suc j')
        with p it have "pass tf j' s1 B1 = Some (Inr (s, Bj, dxj))" by simp
        moreover from Suc j have "j' < k" by simp
        ultimately have "\<not> exits s max_it (i + 1 + 1 + int j') dxj" using k(3) by blast
        with Suc show ?thesis by (simp add: add.commute add.left_commute)
      qed
    qed
    with k(1,2,4) it show ?thesis
      by (intro exI[of _ "Suc k"] exI[of _ B'] exI[of _ dx]) (simp add: add.commute add.left_commute)
  qed
qed





lemma iteration_updates:
  "iteration tf self B = Some (Inr (s1, B1, dx1)) \<Longrightarrow> x s1 = vadd (x self) dx1"
  by (auto simp: iteration_def update_def Let_def split: sum.splits if_splits option.splits)



lemma py_div_one [simp]: "py_div (Fin 1) (Fin 1) = Fin 1"
  by (simp add: py_div_def)

lemma fin_mat_1 [simp]: "fin_mat \<lparr>nr = Suc 0, nc = Suc 0, ent = h\<rparr> \<longleftrightarrow> is_fin (h 0 0)"
  by (auto simp: fin_mat_def)

lemma sqrt_small [simp]: "fl_sqrt fm (Fin 0) = Fin 0" "fl_sqrt fm (Fin 1) = Fin 1"
  by simp_all

lemma oscillating_gd_fields:
  "x oscillating_gd = [Fin 1]" "m oscillating_gd = 1"
  "f oscillating_gd = (\<lambda>v. [f_sq_err (\<lambda>v. v) v])"
  "opt_method oscillating_gd = GD" "\<not> globalized oscillating_gd" "alpha oscillating_gd = 1"
  "eps oscillating_gd = py_val (1/1000)"
  by (simp_all add: oscillating_gd_def init_def)

lemma osc_it1:
  "iteration tf_quad oscillating_gd B0 =
     Some (Inr (oscillating_gd\<lparr>x := [Fin (-1)]\<rparr>, smul_m (Fin 1) (eye 1), [Fin (-2)]))"
  by (simp add: iteration_def oscillating_gd_fields gradient_def jacob_def tf_quad_def
      quad_jacobian_def row_of_def curvature_def raw_step_def pinv_diag_def smul_m_def eye_def
      matvec_def vneg_def update_def vadd_def f_sq_err_def reduce_sum_def Let_def)

lemma osc_it2:
  "iteration tf_quad (oscillating_gd\<lparr>x := [Fin (-1)]\<rparr>) B0 =
     Some (Inr (oscillating_gd, smul_m (Fin 1) (eye 1), [Fin 2]))"
proof -
  have "oscillating_gd\<lparr>x := [Fin 1]\<rparr> = oscillating_gd"
    by (simp add: oscillating_gd_def init_def)
  then show ?thesis
    by (simp add: iteration_def oscillating_gd_fields gradient_def jacob_def tf_quad_def
      quad_jacobian_def row_of_def curvature_def raw_step_def pinv_diag_def smul_m_def eye_def
      matvec_def vneg_def update_def vadd_def f_sq_err_def reduce_sum_def Let_def)
qed

lemma osc_exit1: "\<not> exits (oscillating_gd\<lparr>x := [Fin (-1)]\<rparr>) 1 1 [Fin (-2)]"
  by (simp add: exits_def norm_np_def dot_def tf_sqrt_def oscillating_gd_fields py_literals)

lemma osc_exit2: "exits oscillating_gd 1 2 [Fin 2]"
  by (simp add: exits_def)

lemma osc_leave: "leave oscillating_gd 1 2 = \<lparr>iters = 2, fit_err = Fin 1, warned = True\<rparr>"
  by (simp add: leave_def norm_np_def dot_def tf_sqrt_def oscillating_gd_fields f_sq_err_def
      reduce_sum_def)

lemma osc_run: "optimize tf_quad oscillating_gd 1 =
    Some (Inr (oscillating_gd, \<lparr>iters = 2, fit_err = Fin 1, warned = True\<rparr>))"
  unfolding optimize_def
  apply (subst opt_loop.simps)
  apply (simp add: osc_it1 osc_exit1)
  apply (subst opt_loop.simps)
  apply (simp add: osc_it2 osc_exit2 osc_leave)
  done










lemma norm_np_one [simp]:
  "norm_np [Fin 0] = Fin 0" "norm_np [Fin 1] = Fin 1" "norm_np [Fin (- 1)] = Fin 1"
  by (simp_all add: norm_np_def dot_def tf_sqrt_def)



text \<open>
  C10, amended (no termination test before the first pass has updated the iterate).
  A returned iteration count is at least one; the first pass sets the iterate to the
  \<^verbatim>\<open>float32\<close> sum \<open>x0 + dx\<close>, which is the returned iterate when the run leaves the
  loop after its first pass. The sum equals \<open>x0\<close> only if, at every finite entry of
  \<open>x0\<close>, the entry of \<open>dx\<close> is finite and at most half a unit in the last place of the
  exact sum.
\<close>

theorem first_pass_precedes_tests:
  assumes "optimize tf self max_it = Some (Inr (self', rep))"
  shows "1 \<le> iters rep \<and>
    (\<exists>s1 B1 dx1. iteration tf self (eye (m self)) = Some (Inr (s1, B1, dx1)) \<and>
       x s1 = vadd (x self) dx1 \<and>
       (iters rep = 1 \<longrightarrow> self' = s1) \<and>
       (x s1 = x self \<longrightarrow>
          (\<forall>k<length (x self). \<forall>a. x self ! k = Fin a \<longrightarrow>
             (\<exists>d. dx1 ! k = Fin d \<and> \<bar>d\<bar> \<le> 2 powi (fl_expo Binary32 \<bar>a + d\<bar> - 24)))))"
proof -
  from assms obtain s1 B1 dx1 where
    it: "iteration tf self (eye (m self)) = Some (Inr (s1, B1, dx1))"
    unfolding optimize_def
    by (subst (asm) opt_loop.simps) (auto split: option.splits sum.splits)
  from opt_loop_sound[OF assms[unfolded optimize_def]]
  obtain k B' dx where k: "pass tf k self (eye (m self)) = Some (Inr (self', B', dx))"
    "rep = leave self' max_it (0 + 1 + int k)" by blast
  then have iters: "iters rep = 1 + int k" by (simp add: leave_def)
  have one: "iters rep = 1 \<longrightarrow> self' = s1"
  proof
    assume "iters rep = 1"
    with iters have "k = 0" by simp
    with k(1) it show "self' = s1" by simp
  qed
  have upd: "x s1 = vadd (x self) dx1" by (rule iteration_updates[OF it])
  have "x s1 = x self \<longrightarrow>
          (\<forall>k<length (x self). \<forall>a. x self ! k = Fin a \<longrightarrow>
             (\<exists>d. dx1 ! k = Fin d \<and> \<bar>d\<bar> \<le> 2 powi (fl_expo Binary32 \<bar>a + d\<bar> - 24)))"
  proof (intro impI allI)
    fix k a assume same: "x s1 = x self" and k: "k < length (x self)" and a: "x self ! k = Fin a"
    from same upd have "vadd (x self) dx1 ! k = x self ! k" by simp
    with k a have s: "Fin a + dx1 ! k = Fin a" by (simp add: vadd_def)
    then obtain d where d: "dx1 ! k = Fin d"
      by (cases "dx1 ! k") (simp_all add: plus_tfloat_def tf_add_def)
    with s have "fl_round Binary32 (a + d) = Fin a" by simp
    from fl_round_error[OF this] have "\<bar>d\<bar> \<le> 2 powi (fl_expo Binary32 \<bar>a + d\<bar> - 24)"
      by (simp add: abs_minus_commute)
    with d show "\<exists>d. dx1 ! k = Fin d \<and> \<bar>d\<bar> \<le> 2 powi (fl_expo Binary32 \<bar>a + d\<bar> - 24)"
      by blast
  qed
  with it upd one iters show ?thesis by auto
qed

lemma absorbed_roundings:
  "fl_round fm 1073741824 = Fin 1073741824"
  "fl_round fm (1 / 1073741824) = Fin (1 / 1073741824)"
  "fl_round fm (1 / 536870912) = Fin (1 / 536870912)"
  "fl_round fm (1 / 288230376151711744) = Fin (1 / 288230376151711744)"
  using fl_round_dyadic[of fm 30 1] fl_round_frac[of 1 30 fm] fl_round_frac[of 1 29 fm]
    fl_round_frac[of 1 58 fm]
  by (simp_all add: fmt_facts) (cases fm; simp)+

lemma absorbed_sum: "fl_round Binary32 (536870911 / 536870912) = Fin 1"
  by (subst fl_round_at[where e = "-1"]) (simp_all add: round_even_def Let_def power_int_minus)

lemma absorbed_norm: "sqrt (1 / 288230376151711744) = 1 / 536870912"
proof -
  have "sqrt ((1 / 536870912)\<^sup>2) = 1 / 536870912" by (simp only: real_sqrt_abs)
  then show ?thesis by (simp add: power2_eq_square)
qed

lemma absorbed_gd_fields:
  "x absorbed_gd = [Fin 1]" "m absorbed_gd = 1"
  "f absorbed_gd = (\<lambda>v. [f_sq_err (\<lambda>v. v) v])"
  "opt_method absorbed_gd = GD" "\<not> globalized absorbed_gd" "alpha absorbed_gd = 1 / 2 ^ 30"
  "eps absorbed_gd = py_val (1/1000)"
  by (simp_all add: absorbed_gd_def init_def)

lemma absorbed_it:
  "iteration tf_quad absorbed_gd B0 =
     Some (Inr (absorbed_gd, smul_m (Fin (2 ^ 30)) (eye 1), [Fin (- (1 / 2 ^ 29))]))"
proof -
  have "absorbed_gd\<lparr>x := [Fin 1]\<rparr> = absorbed_gd"
    by (simp add: absorbed_gd_def init_def)
  then show ?thesis
    by (simp add: iteration_def absorbed_gd_fields gradient_def jacob_def tf_quad_def
      quad_jacobian_def row_of_def curvature_def raw_step_def pinv_diag_def smul_m_def eye_def
      matvec_def vneg_def update_def vadd_def f_sq_err_def reduce_sum_def Let_def py_div_def
      absorbed_roundings absorbed_sum)
qed

lemma absorbed_run:
  "optimize tf_quad absorbed_gd 100 =
     Some (Inr (absorbed_gd, \<lparr>iters = 1, fit_err = Fin 1, warned = False\<rparr>))"
proof -
  have e: "exits absorbed_gd 100 (0 + 1) [Fin (- (1 / 2 ^ 29))]"
    by (simp add: exits_def norm_np_def dot_def tf_sqrt_def absorbed_gd_fields py_literals
        absorbed_roundings absorbed_norm)
  have l: "leave absorbed_gd 100 (0 + 1) = \<lparr>iters = 1, fit_err = Fin 1, warned = False\<rparr>"
    by (simp add: leave_def absorbed_gd_fields f_sq_err_def reduce_sum_def)
  show ?thesis
    unfolding optimize_def
    by (subst opt_loop.simps)
       (simp only: absorbed_it e l option.case sum.case prod.case if_True)
qed

theorem first_pass_precedes_tests_witness:
  "optimize tf_quad oscillating_gd 0 =
     Some (Inr (oscillating_gd\<lparr>x := [Fin (-1)]\<rparr>, \<lparr>iters = 1, fit_err = Fin 1, warned = True\<rparr>)) \<and>
   iteration tf_quad oscillating_gd (eye (m oscillating_gd)) =
     Some (Inr (oscillating_gd\<lparr>x := [Fin (-1)]\<rparr>, smul_m (Fin 1) (eye 1), [Fin (-2)])) \<and>
   x (oscillating_gd\<lparr>x := [Fin (-1)]\<rparr>) = vadd (x oscillating_gd) [Fin (-2)] \<and>
   optimize tf_quad absorbed_gd 100 =
     Some (Inr (absorbed_gd, \<lparr>iters = 1, fit_err = Fin 1, warned = False\<rparr>)) \<and>
   iteration tf_quad absorbed_gd (eye (m absorbed_gd)) =
     Some (Inr (absorbed_gd, smul_m (Fin (2 ^ 30)) (eye 1), [Fin (- (1 / 2 ^ 29))])) \<and>
   \<bar>- (1 / 2 ^ 29) :: real\<bar> \<le> 2 powi (fl_expo Binary32 \<bar>1 + - (1 / 2 ^ 29)\<bar> - 24)"
proof -
  have run: "optimize tf_quad oscillating_gd 0 =
     Some (Inr (oscillating_gd\<lparr>x := [Fin (-1)]\<rparr>, \<lparr>iters = 1, fit_err = Fin 1, warned = True\<rparr>))"
  proof -
    have e: "exits (oscillating_gd\<lparr>x := [Fin (-1)]\<rparr>) 0 1 [Fin (-2)]"
      by (simp add: exits_def)
    have l: "leave (oscillating_gd\<lparr>x := [Fin (-1)]\<rparr>) 0 1 =
        \<lparr>iters = 1, fit_err = Fin 1, warned = True\<rparr>"
      by (simp add: leave_def oscillating_gd_fields f_sq_err_def reduce_sum_def)
    show ?thesis
      unfolding optimize_def
      by (subst opt_loop.simps) (simp add: osc_it1 e l)
  qed
  from first_pass_precedes_tests[OF run] run
  have a: "x (oscillating_gd\<lparr>x := [Fin (-1)]\<rparr>) = vadd (x oscillating_gd) [Fin (-2)]"
    by (auto simp: osc_it1)
  from first_pass_precedes_tests[OF absorbed_run]
  have "\<forall>k<length (x absorbed_gd). \<forall>a. x absorbed_gd ! k = Fin a \<longrightarrow>
     (\<exists>d. [Fin (- (1 / 2 ^ 29))] ! k = Fin d \<and> \<bar>d\<bar> \<le> 2 powi (fl_expo Binary32 \<bar>a + d\<bar> - 24))"
    by (auto simp: absorbed_it)
  then have "\<exists>d. [Fin (- (1 / 2 ^ 29))] ! 0 = Fin d \<and>
      \<bar>d\<bar> \<le> 2 powi (fl_expo Binary32 \<bar>1 + d\<bar> - 24)"
    by (simp add: absorbed_gd_fields)
  then have b: "\<bar>- (1 / 2 ^ 29) :: real\<bar> \<le> 2 powi (fl_expo Binary32 \<bar>1 + - (1 / 2 ^ 29)\<bar> - 24)"
    by auto
  from run a b absorbed_run absorbed_it show ?thesis
    by (simp add: osc_it1)
qed

text \<open>
  C10 as stated fails. After two passes the oscillating run is back at its start, which
  it returns, although its first step was \<open>-2\<close>. And with \<^verbatim>\<open>alpha=2**-30\<close> the first
  step \<open>-2\<^sup>-\<^sup>2\<^sup>9\<close> is not zero, but too small to change the iterate 1 in \<^verbatim>\<open>float32\<close>: the
  run returns its start after the first pass.
\<close>

theorem returned_iterate_can_equal_start:
  "optimize tf_quad oscillating_gd 1 =
     Some (Inr (oscillating_gd, \<lparr>iters = 2, fit_err = Fin 1, warned = True\<rparr>)) \<and>
   iteration tf_quad oscillating_gd (eye (m oscillating_gd)) =
     Some (Inr (oscillating_gd\<lparr>x := [Fin (-1)]\<rparr>, smul_m (Fin 1) (eye 1), [Fin (-2)])) \<and>
   optimize tf_quad absorbed_gd 100 =
     Some (Inr (absorbed_gd, \<lparr>iters = 1, fit_err = Fin 1, warned = False\<rparr>)) \<and>
   iteration tf_quad absorbed_gd (eye (m absorbed_gd)) =
     Some (Inr (absorbed_gd, smul_m (Fin (2 ^ 30)) (eye 1), [Fin (- (1 / 2 ^ 29))])) \<and>
   x absorbed_gd = [Fin 1]"
  using osc_run osc_it1 absorbed_run absorbed_it absorbed_gd_fields(1) by simp


section \<open>The BFGS update\<close>


lemma is_fin_conv: "is_fin a \<longleftrightarrow> (\<exists>r. a = Fin r)"
  by (cases a) simp_all

lemma fin_vec_nth: "fin_vec v \<Longrightarrow> k < length v \<Longrightarrow> is_fin (v ! k)"
  by (simp add: fin_vec_def)

lemma fin_mat_ent: "fin_mat M \<Longrightarrow> i < nr M \<Longrightarrow> j < nc M \<Longrightarrow> is_fin (ent M i j)"
  by (simp add: fin_mat_def)




lemma tf_inf_nonfin [simp]: "\<not> is_fin (tf_inf p)"
  by (cases p) simp_all





lemma recip_zero_nonfin: "\<not> is_fin (Fin 1 / Fin 0)"
  by simp










lemma fl_round_neg_half [simp]: "fl_round fm (- (1/2)) = Fin (- (1/2))"
  using fl_round_frac[of "- 1" 1 fm] by simp


lemma eye_simps [simp]:
  "nr (eye k) = k" "nc (eye k) = k" "ent (eye k) i j = (if i = j then 1 else 0)"
  by (simp_all add: eye_def)

lemma fin_mat_eye [simp]: "fin_mat (eye k :: tfloat mat)"
  by (auto simp: fin_mat_def)

lemma map_upt_2: "map h [0..<2] = [h 0, h 1]"
  by (simp add: numeral_2_eq_2)

















section \<open>The gradient-descent step\<close>

lemma lsum_sum [simp]: "lsum h n = (\<Sum>k<n. h k)" for h :: "nat \<Rightarrow> 'a::comm_monoid_add"
  by (induction n) (simp_all add: add.commute)

lemma mat_eqD: "mat_eq M N \<Longrightarrow> i < nr M \<Longrightarrow> j < nc M \<Longrightarrow> ent M i j = ent N i j"
  by (simp add: mat_eq_def)

lemma shape_simps [simp]:
  "nr (matmul M N) = nr M" "nc (matmul M N) = nc N"
  "nr (transpose_m M) = nc M" "nc (transpose_m M) = nr M"
  "nr (smul_m a M) = nr M" "nc (smul_m a M) = nc M"
  "nr (add_m M N) = nr M" "nc (add_m M N) = nc M"
  "nr (sub_m M N) = nr M" "nc (sub_m M N) = nc M"
  "nr (real_m T) = nr T" "nc (real_m T) = nc T"
  "nr (round_m R) = nr R" "nc (round_m R) = nc R"
  by (simp_all add: matmul_def transpose_m_def smul_m_def add_m_def sub_m_def real_m_def
      round_m_def)

text \<open>The pseudo-inverse of a nonzero multiple of the identity.\<close>

lemma pinv_of_scaled_identity:
  assumes c: "c \<noteq> 0" and mp: "moore_penrose A X" and sh: "nr A = k" "nc A = k"
    and A: "\<And>a b. a < k \<Longrightarrow> b < k \<Longrightarrow> ent A a b = (if a = b then c else 0)"
    and i: "i < k" and j: "j < k"
  shows "ent X i j = (if i = j then 1 / c else 0)"
proof -
  have shape: "nr X = k" "nc X = k" using mp sh by (simp_all add: moore_penrose_def)
  have AX: "ent (matmul A X) a b = c * ent X a b" if "a < k" "b < k" for a b
  proof -
    have "ent (matmul A X) a b = (\<Sum>l<k. ent A a l * ent X l b)"
      by (simp add: matmul_def sh)
    also have "\<dots> = (\<Sum>l<k. if a = l then c * ent X l b else 0)"
      using that by (intro sum.cong) (simp_all add: A)
    also have "\<dots> = c * ent X a b"
      using that by (simp add: sum.delta')
    finally show ?thesis .
  qed
  have "ent (matmul (matmul A X) A) i j = (\<Sum>l<k. ent (matmul A X) i l * ent A l j)"
    using shape by (simp add: matmul_def)
  also have "\<dots> = (\<Sum>l<k. if l = j then c * ent X i l * c else 0)"
    using i j by (intro sum.cong) (simp_all add: AX A)
  also have "\<dots> = c * ent X i j * c"
    using j by (simp add: sum.delta)
  finally have lhs: "ent (matmul (matmul A X) A) i j = c * ent X i j * c" .
  from mp have "mat_eq (matmul (matmul A X) A) A"
    by (simp add: moore_penrose_def)
  from mat_eqD[OF this, of i j] i j sh have "ent (matmul (matmul A X) A) i j = ent A i j"
    by simp
  with lhs A[OF i j] have "c * ent X i j * c = (if i = j then c else 0)" by simp
  with c show ?thesis
    by (auto simp: field_simps)
qed

text \<open>Sums of rounded terms all but one of which are zero.\<close>

lemma lsum_zeros: "(\<And>k. k < n \<Longrightarrow> h k = Fin 0) \<Longrightarrow> lsum h n = Fin 0"
  by (induction n) simp_all

lemma lsum_single:
  assumes "i < n" "\<And>k. k < n \<Longrightarrow> k \<noteq> i \<Longrightarrow> h k = Fin 0"
    and "Fin 0 + h i = h i" "h i + Fin 0 = h i"
  shows "lsum h n = h i"
  using assms(1,2)
proof (induction n)
  case 0
  then show ?case by simp
next
  case (Suc n)
  show ?case
  proof (cases "i = n")
    case True
    with Suc.prems have "lsum h n = Fin 0" by (intro lsum_zeros) simp
    with True assms(3) show ?thesis by simp
  next
    case False
    with Suc.prems have "i < n" by simp
    with Suc have "lsum h n = h i" by simp
    moreover from Suc.prems False have "h n = Fin 0" by simp
    ultimately show ?thesis using assms(4) by simp
  qed
qed

lemma mul_Fin_cases: "a * b = Fin w \<Longrightarrow> \<exists>u v. a = Fin u \<and> b = Fin v" for a b :: tfloat
  by (cases a; cases b) (auto simp: times_tfloat_def tf_mul_def split: if_splits)

lemma mul_stable: "Fin 0 + a * b = a * b \<and> a * b + Fin 0 = a * b" for a b :: tfloat
proof (cases "a * b")
  case (Fin w)
  then obtain u v where uv: "a = Fin u" "b = Fin v"
    using mul_Fin_cases by blast
  with Fin have "fl_round Binary32 (u * v) = Fin w" by simp
  from fl_round_idem[OF this] show ?thesis by (simp add: Fin)
qed (simp_all add: plus_tfloat_def tf_add_def)


lemma to_f32_idem: "to_f32 t = Fin b \<Longrightarrow> fl_round Binary32 b = Fin b"
  by (cases t) (simp_all add: fl_round_idem)

lemma pow2_round:
  assumes "emin fm - int (prec fm) + 1 \<le> k" "k \<le> emax fm"
  shows "fl_round fm (2 powi k) = Fin (2 powi k)"
proof -
  have "\<bar>1::int\<bar> < 2 ^ prec fm" using fmt_facts(3)[of fm] by (simp add: one_less_power)
  moreover have "\<bar>of_int 1 * (2::real) powi k\<bar> < 2 powi (emax fm + 1)"
    using assms(2) by (simp add: two_powi_less)
  ultimately show ?thesis using fl_round_dyadic[OF assms(1), of 1] by simp
qed

text \<open>
  C9, amended (gradient descent in Newton form). With \<open>alpha \<noteq> 0\<close> and no line search
  the curvature matrix is \<open>b I\<close>, where \<open>b\<close> is \<open>1/alpha\<close> rounded to binary64 and then to
  \<^verbatim>\<open>float32\<close>. If \<open>b\<close> is finite and not zero and \<^verbatim>\<open>pinv\<close> returns the rounded
  pseudo-inverse of \<open>b I\<close>, then for a gradient of \<open>m\<close> finite entries the step of a pass
  is \<open>-(a g)\<close>, where \<open>a\<close> is \<open>1/b\<close> rounded to \<^verbatim>\<open>float32\<close> and the products are rounded,
  and the iterate moves by it. The factor \<open>a\<close> is \<open>alpha\<close> when \<open>alpha\<close> is a power of two
  between \<open>2\<^sup>-\<^sup>1\<^sup>2\<^sup>6\<close> and \<open>2\<^sup>1\<^sup>2\<^sup>6\<close>.
\<close>

theorem gd_step_is_scaled_gradient:
  assumes "opt_method self = GD" "alpha self \<noteq> 0" "\<not> globalized self"
    and "length (gradient tf self) = m self" "fin_vec (gradient tf self)"
    and "to_f32 (py_div (Fin 1) (Fin (alpha self))) = Fin b" "b \<noteq> 0"
    and "pinv_rounds tf (smul_m (Fin b) (eye (m self))) X"
  shows "(\<exists>self' B'. iteration tf self B0 =
            Some (Inr (self', B', vneg (vscale (fl_round Binary32 (1 / b)) (gradient tf self)))) \<and>
          x self' = vadd (x self) (vneg (vscale (fl_round Binary32 (1 / b)) (gradient tf self)))) \<and>
         ((\<exists>k. alpha self = 2 powi k \<and> - 126 \<le> k \<and> k \<le> 126) \<longrightarrow>
            fl_round Binary32 (1 / b) = Fin (alpha self))"
proof (intro conjI impI)
  let ?g = "gradient tf self"
  let ?A = "smul_m (Fin b) (eye (m self)) :: tfloat mat"
  let ?P = "pinv tf ?A"
  let ?a = "fl_round Binary32 (1 / b)"
  have bb: "fl_round Binary32 b = Fin b" by (rule to_f32_idem[OF assms(6)])
  have A: "ent (real_m ?A) i j = (if i = j then b else 0)" for i j
    by (simp add: real_m_def smul_m_def bb)
  from assms(8) have mp: "moore_penrose (real_m ?A) X" and eq: "mat_eq ?P (round_m X)"
    by (simp_all add: pinv_rounds_def)
  from mp have shX: "nr X = m self" "nc X = m self" by (simp_all add: moore_penrose_def)
  with eq have shP: "nr ?P = m self" "nc ?P = m self" by (simp_all add: mat_eq_def)
  have X: "ent X i j = (if i = j then 1 / b else 0)" if "i < m self" "j < m self" for i j
    by (rule pinv_of_scaled_identity[OF assms(7) mp _ _ _ that]) (simp_all add: A)
  have P: "ent ?P i j = (if i = j then ?a else Fin 0)" if "i < m self" "j < m self" for i j
    using mat_eqD[OF eq, of i j] that shP X[OF that] by (simp add: round_m_def)
  have row: "lsum (\<lambda>k. ent ?P i k * ?g ! k) (m self) = ?a * ?g ! i" if i: "i < m self" for i
  proof -
    have "lsum (\<lambda>k. ent ?P i k * ?g ! k) (m self) = ent ?P i i * ?g ! i"
    proof (rule lsum_single[where i = i])
      fix k assume k: "k < m self" "k \<noteq> i"
      from assms(4,5) k(1) obtain r where "?g ! k = Fin r"
        using fin_vec_nth is_fin_conv by metis
      with P[OF i k(1)] k(2) show "ent ?P i k * ?g ! k = Fin 0" by simp
    qed (use i mul_stable[of "ent ?P i i" "?g ! i"] in simp_all)
    with P[OF i i] show ?thesis by simp
  qed
  have step: "raw_step tf ?A ?g = vneg (vscale ?a ?g)"
  proof (rule nth_equalityI)
    show "length (raw_step tf ?A ?g) = length (vneg (vscale ?a ?g))"
      using shP assms(4) by (simp add: raw_step_def vneg_def matvec_def vscale_def)
  next
    fix i assume "i < length (raw_step tf ?A ?g)"
    then have i: "i < m self" using shP by (simp add: raw_step_def vneg_def matvec_def)
    then show "raw_step tf ?A ?g ! i = vneg (vscale ?a ?g) ! i"
      using shP assms(4) row[OF i] by (simp add: raw_step_def vneg_def matvec_def vscale_def)
  qed
  show "\<exists>self' B'. iteration tf self B0 = Some (Inr (self', B', vneg (vscale ?a ?g))) \<and>
          x self' = vadd (x self) (vneg (vscale ?a ?g))"
    using assms(1,2,3,6) step
    by (simp add: iteration_def curvature_def update_def Let_def)
next
  assume "\<exists>k. alpha self = 2 powi k \<and> - 126 \<le> k \<and> k \<le> 126"
  then obtain k where k: "alpha self = 2 powi k" "- 126 \<le> k" "k \<le> 126" by blast
  have "py_div (Fin 1) (Fin (alpha self)) = fl_round Binary64 (2 powi (- k))"
    using assms(2) by (simp add: py_div_def k(1) power_int_minus field_simps)
  also have "\<dots> = Fin (2 powi (- k))" using k(2,3) by (intro pow2_round) simp_all
  finally have "to_f32 (py_div (Fin 1) (Fin (alpha self))) = fl_round Binary32 (2 powi (- k))"
    by simp
  also have "\<dots> = Fin (2 powi (- k))" using k(2,3) by (intro pow2_round) simp_all
  finally have b: "b = 2 powi (- k)" using assms(6) by simp
  have "1 / b = 2 powi k" by (simp add: b power_int_minus field_simps)
  then have "fl_round Binary32 (1 / b) = fl_round Binary32 (2 powi k)"
    by (simp only:)
  also have "\<dots> = Fin (2 powi k)" using k(2,3) by (intro pow2_round) simp_all
  finally show "fl_round Binary32 (1 / b) = Fin (alpha self)" by (simp add: k(1))
qed

lemma gd_two_fields:
  "x gd_two = [Fin 1, Fin 2]" "m gd_two = 2"
  "f gd_two = (\<lambda>v. [f_sq_err (\<lambda>v. v) v])"
  "opt_method gd_two = GD" "\<not> globalized gd_two" "alpha gd_two = 1/2"
  by (simp_all add: gd_two_def init_def)

lemma gd_two_gradient: "gradient tf_quad gd_two = [Fin 2, Fin 4]"
  by (simp add: gd_two_fields gradient_def jacob_def tf_quad_def
      quad_jacobian_def row_of_def f_sq_err_def reduce_sum_def map_upt_2 lsum_2)

lemma gd_two_pinv:
  "pinv_rounds tf_quad (smul_m (Fin 2) (eye 2)) (smul_m (1/2) (eye 2))"
  by (auto simp: pinv_rounds_def tf_quad_def moore_penrose_def mat_eq_def fin_mat_def
      pinv_diag_def matmul_def transpose_m_def smul_m_def real_m_def round_m_def
      lessThan_Suc numeral_2_eq_2)

theorem gd_step_is_scaled_gradient_witness:
  "alpha gd_two = 1/2 \<and> gradient tf_quad gd_two = [Fin 2, Fin 4] \<and>
   (\<exists>self' B'. iteration tf_quad gd_two (eye 2) = Some (Inr (self', B', [Fin (-1), Fin (-2)])) \<and>
      x self' = [Fin 0, Fin 0]) \<and>
   fl_round Binary32 (1 / 2) = Fin (alpha gd_two)"
proof -
  have h: "opt_method gd_two = GD" "alpha gd_two \<noteq> 0" "\<not> globalized gd_two"
    "length (gradient tf_quad gd_two) = m gd_two" "fin_vec (gradient tf_quad gd_two)"
    "to_f32 (py_div (Fin 1) (Fin (alpha gd_two))) = Fin 2" "(2::real) \<noteq> 0"
    "pinv_rounds tf_quad (smul_m (Fin 2) (eye (m gd_two))) (smul_m (1/2) (eye 2))"
    using gd_two_pinv
    by (simp_all add: gd_two_gradient fin_vec_def gd_two_fields py_div_def)
  have v: "vneg (vscale (Fin (1/2)) [Fin 2, Fin 4]) = [Fin (-1), Fin (-2)]"
    "vadd [Fin 1, Fin 2] [Fin (-1), Fin (-2)] = [Fin 0, Fin 0]"
    by (simp_all add: vscale_def vneg_def vadd_def map_upt_2)
  have k: "\<exists>k. alpha gd_two = 2 powi k \<and> - 126 \<le> k \<and> k \<le> 126"
    by (intro exI[of _ "- 1"]) (simp add: gd_two_fields power_int_minus)
  from gd_step_is_scaled_gradient[OF h, of "eye 2"] k
  show ?thesis by (simp add: gd_two_gradient v gd_two_fields)
qed


lemma nan_arith [simp]:
  "a + NaN = NaN" "NaN + a = NaN" "a * NaN = NaN" "NaN * a = NaN" "- NaN = NaN"
  "PInf * Fin 1 = PInf" "\<not> is_fin PInf"
  by (cases a; simp add: plus_tfloat_def times_tfloat_def uminus_tfloat_def tf_add_def tf_mul_def)+

lemma gd_seven_roundings:
  "fl_round Binary64 (1/7) = Fin (2573485501354569/18014398509481984)"
  "fl_round Binary32 (2573485501354569/18014398509481984) = Fin (9586981/67108864)"
  "fl_round Binary32 (9586981/67108864) = Fin (9586981/67108864)"
  "fl_round Binary32 (67108864/9586981) = Fin (14680063/2097152)"
  "fl_round Binary32 (14680063/1048576) = Fin (14680063/1048576)"
  "fl_round Binary32 (- (13631487/1048576)) = Fin (- (13631487/1048576))"
proof -
  show "fl_round Binary64 (1/7) = Fin (2573485501354569/18014398509481984)"
    by (subst fl_round_at[where e = "-3"]) (simp_all add: round_even_def Let_def power_int_minus)
  show "fl_round Binary32 (2573485501354569/18014398509481984) = Fin (9586981/67108864)"
    by (subst fl_round_at[where e = "-3"]) (simp_all add: round_even_def Let_def power_int_minus)
  show "fl_round Binary32 (67108864/9586981) = Fin (14680063/2097152)"
    by (subst fl_round_at[where e = "2"]) (simp_all add: round_even_def Let_def power_int_minus)
  show "fl_round Binary32 (9586981/67108864) = Fin (9586981/67108864)"
    using fl_round_frac[of 9586981 26 Binary32] by simp
  show "fl_round Binary32 (14680063/1048576) = Fin (14680063/1048576)"
    using fl_round_frac[of 14680063 20 Binary32] by simp
  show "fl_round Binary32 (- (13631487/1048576)) = Fin (- (13631487/1048576))"
    using fl_round_frac[of "- 13631487" 20 Binary32] by simp
qed

lemma gd_seven_fields:
  "x gd_seven = [Fin 1]" "m gd_seven = 1"
  "f gd_seven = (\<lambda>v. [f_sq_err (\<lambda>v. v) v])"
  "opt_method gd_seven = GD" "\<not> globalized gd_seven" "alpha gd_seven = 7"
  by (simp_all add: gd_seven_def init_def)

lemma gd_seven_gradient: "gradient tf_quad gd_seven = [Fin 2]"
  by (simp add: gd_seven_fields gradient_def jacob_def tf_quad_def
      quad_jacobian_def row_of_def f_sq_err_def reduce_sum_def)

lemma gd_seven_it:
  "iteration tf_quad gd_seven B0 =
     Some (Inr (gd_seven\<lparr>x := [Fin (- (13631487/1048576))]\<rparr>,
                smul_m (Fin (9586981/67108864)) (eye 1), [Fin (- (14680063/1048576))]))"
  by (simp add: iteration_def gd_seven_gradient[unfolded tf_quad_def] gd_seven_fields curvature_def raw_step_def
      tf_quad_def pinv_diag_def smul_m_def matvec_def vneg_def update_def vadd_def Let_def
      py_div_def gd_seven_roundings)

lemma gd_tiny_roundings:
  "fl_round Binary64 1361129467683753853853498429727072845824 =
     Fin 1361129467683753853853498429727072845824"
  "fl_round Binary32 1361129467683753853853498429727072845824 = PInf"
  using pow2_round[of Binary64 130] fl_round_overflow[of Binary32 "2 ^ 130"]
  by simp_all

lemma gd_tiny_fields:
  "x gd_tiny = [Fin 1]" "m gd_tiny = 1"
  "f gd_tiny = (\<lambda>v. [f_sq_err (\<lambda>v. v) v])"
  "opt_method gd_tiny = GD" "\<not> globalized gd_tiny" "alpha gd_tiny = 1 / 2 ^ 130"
  by (simp_all add: gd_tiny_def init_def)

lemma gd_tiny_gradient: "gradient tf_quad gd_tiny = [Fin 2]"
  by (simp add: gd_tiny_fields gradient_def jacob_def tf_quad_def
      quad_jacobian_def row_of_def f_sq_err_def reduce_sum_def)

lemma gd_tiny_it:
  "iteration tf_quad gd_tiny B0 = Some (Inr (gd_tiny\<lparr>x := [NaN]\<rparr>, smul_m PInf (eye 1), [NaN]))"
  by (simp add: iteration_def gd_tiny_gradient[unfolded tf_quad_def] gd_tiny_fields curvature_def raw_step_def
      tf_quad_def pinv_diag_def smul_m_def matvec_def vneg_def update_def vadd_def Let_def
      py_div_def gd_tiny_roundings)

text \<open>
  C9 as stated fails. With \<^verbatim>\<open>alpha=7.\<close> the curvature matrix holds the \<^verbatim>\<open>float32\<close>
  nearest to \<open>1/7\<close>, whose rounded reciprocal is \<open>7 - 2\<^sup>-\<^sup>2\<^sup>1\<close>: from \<open>x = 1\<close>, where the
  gradient is 2, the step is \<open>-14 + 2\<^sup>-\<^sup>2\<^sup>0\<close> and not \<open>-14\<close>. With \<^verbatim>\<open>alpha=2**-130\<close> the
  reciprocal \<open>2\<^sup>1\<^sup>3\<^sup>0\<close> is an infinity in \<^verbatim>\<open>float32\<close>, and the step is NaN.
\<close>

theorem gd_step_differs_from_scaled_gradient:
  "alpha gd_seven = 7 \<and> gradient tf_quad gd_seven = [Fin 2] \<and>
   iteration tf_quad gd_seven (eye (m gd_seven)) =
     Some (Inr (gd_seven\<lparr>x := [Fin (- (13631487/1048576))]\<rparr>,
                smul_m (Fin (9586981/67108864)) (eye 1), [Fin (- (14680063/1048576))])) \<and>
   vscale (Fin (- alpha gd_seven)) (gradient tf_quad gd_seven) = [Fin (- 14)] \<and>
   alpha gd_tiny = 1 / 2 ^ 130 \<and> gradient tf_quad gd_tiny = [Fin 2] \<and>
   iteration tf_quad gd_tiny (eye (m gd_tiny)) =
     Some (Inr (gd_tiny\<lparr>x := [NaN]\<rparr>, smul_m PInf (eye 1), [NaN]))"
  by (simp add: gd_seven_it gd_seven_gradient gd_seven_fields gd_tiny_it gd_tiny_gradient
      gd_tiny_fields vscale_def)


section \<open>The QP solver: least squares and the values of the two branches\<close>

lemma quad_lin_zero:
  fixes p q :: real
  assumes "\<forall>t. 0 \<le> 2 * t * p + t\<^sup>2 * q" "0 \<le> q"
  shows "p = 0"
proof (cases "q = 0")
  case True
  from assms(1) have "0 \<le> 2 * (- p) * p + (- p)\<^sup>2 * q" by blast
  with True have "p\<^sup>2 \<le> 0" by (simp add: power2_eq_square)
  then show ?thesis by simp
next
  case False
  with assms(2) have q: "0 < q" by simp
  from assms(1) have "0 \<le> 2 * (- p / q) * p + (- p / q)\<^sup>2 * q" by blast
  also have "2 * (- p / q) * p + (- p / q)\<^sup>2 * q = - (p\<^sup>2 / q)"
    using q by (simp add: power2_eq_square field_simps)
  finally have "p\<^sup>2 / q \<le> 0" by simp
  with q have "p\<^sup>2 \<le> 0" by (simp add: divide_le_0_iff)
  then show ?thesis by simp
qed

lemma matvec_length [simp]: "length (matvec M v) = nr M"
  by (simp add: matvec_def)

lemma matvec_nth: "i < nr M \<Longrightarrow> matvec M v ! i = (\<Sum>k<nc M. ent M i k * v ! k)"
  by (simp add: matvec_def)

lemma matvec_perturb:
  fixes a :: "real mat"
  assumes "i < nr a" "j < nc a" "length z = nc a"
  shows "matvec a (z[j := z ! j + t]) ! i = matvec a z ! i + t * ent a i j"
proof -
  have "matvec a (z[j := z ! j + t]) ! i = (\<Sum>k<nc a. ent a i k * (z ! k + (if k = j then t else 0)))"
    using assms by (simp add: matvec_nth) (intro sum.cong, auto simp: nth_list_update)
  also have "\<dots> = (\<Sum>k<nc a. ent a i k * z ! k + (if k = j then ent a i k * t else 0))"
    by (intro sum.cong) (auto simp: algebra_simps)
  also have "\<dots> = (\<Sum>k<nc a. ent a i k * z ! k) + (\<Sum>k<nc a. if k = j then ent a i k * t else 0)"
    by (rule sum.distrib)
  also have "(\<Sum>k<nc a. if k = j then ent a i k * t else 0) = t * ent a i j"
    using assms(2) by (simp add: sum.delta)
  finally show ?thesis using assms(1) by (simp add: matvec_nth)
qed

lemma sq_res_perturb:
  assumes "j < nc a" "length z = nc a"
  shows "sq_res a (z[j := z ! j + t]) rhs =
     sq_res a z rhs + 2 * t * (\<Sum>i<nr a. ent a i j * (matvec a z ! i - rhs ! i))
       + t\<^sup>2 * (\<Sum>i<nr a. (ent a i j)\<^sup>2)"
proof -
  have "sq_res a (z[j := z ! j + t]) rhs = (\<Sum>i<nr a. (matvec a z ! i + t * ent a i j - rhs ! i)\<^sup>2)"
    unfolding sq_res_def using assms by (intro sum.cong) (simp_all add: matvec_perturb)
  also have "\<dots> = (\<Sum>i<nr a. (matvec a z ! i - rhs ! i)\<^sup>2
       + 2 * t * (ent a i j * (matvec a z ! i - rhs ! i)) + t\<^sup>2 * (ent a i j)\<^sup>2)"
    by (intro sum.cong) (simp_all add: power2_eq_square algebra_simps)
  finally show ?thesis
    by (simp add: sq_res_def sum.distrib sum_distrib_left)
qed

lemma lstsq_normal_eq:
  assumes "lstsq_ok a rhs sol" "j < nc a"
  shows "(\<Sum>i<nr a. ent a i j * (matvec a sol ! i - rhs ! i)) = 0"
proof (rule quad_lin_zero)
  show "0 \<le> (\<Sum>i<nr a. (ent a i j)\<^sup>2)" by (simp add: sum_nonneg)
  show "\<forall>t. 0 \<le> 2 * t * (\<Sum>i<nr a. ent a i j * (matvec a sol ! i - rhs ! i))
       + t\<^sup>2 * (\<Sum>i<nr a. (ent a i j)\<^sup>2)"
  proof
    fix t
    from assms(1) have len: "length sol = nc a" by (simp add: lstsq_ok_def)
    with assms(1) have "sq_res a sol rhs \<le> sq_res a (sol[j := sol ! j + t]) rhs"
      by (simp add: lstsq_ok_def)
    with sq_res_perturb[OF assms(2) len, of t rhs]
    show "0 \<le> 2 * t * (\<Sum>i<nr a. ent a i j * (matvec a sol ! i - rhs ! i))
       + t\<^sup>2 * (\<Sum>i<nr a. (ent a i j)\<^sup>2)" by simp
  qed
qed

lemma lstsq_exact_if_consistent:
  assumes "lstsq_ok a rhs sol" "length z = nc a" "\<forall>i<nr a. matvec a z ! i = rhs ! i"
    and "i < nr a"
  shows "matvec a sol ! i = rhs ! i"
proof -
  have "sq_res a z rhs = 0" using assms(3) by (simp add: sq_res_def)
  moreover from assms(1) have "\<forall>z. length z = nc a \<longrightarrow> sq_res a sol rhs \<le> sq_res a z rhs"
    by (simp add: lstsq_ok_def)
  ultimately have "sq_res a sol rhs \<le> 0" using assms(2) by metis
  moreover have "0 \<le> sq_res a sol rhs" by (simp add: sq_res_def sum_nonneg)
  ultimately have "sq_res a sol rhs = 0" by simp
  then have "\<forall>i\<in>{..<nr a}. (matvec a sol ! i - rhs ! i)\<^sup>2 = 0"
    unfolding sq_res_def by (subst (asm) sum_nonneg_eq_0_iff) simp_all
  with assms(4) show ?thesis by simp
qed

lemma slice_idx_nat [simp]: "k \<le> len \<Longrightarrow> slice_idx len (int k) = k"
  by (simp add: slice_idx_def)

lemma cut_shapes [simp]:
  "nr (cols_from M s) = nr M" "nc (cols_from M s) = nc M - s"
  "nr (cols_upto M s) = nr M" "nc (cols_upto M s) = s"
  "nr (rows_upto M s) = s" "nc (rows_upto M s) = nc M"
  "nr (neg_m M) = nr M" "nc (neg_m M) = nc M"
  by (simp_all add: cols_from_def cols_upto_def rows_upto_def neg_m_def)

lemma vec_lengths [simp]:
  "length (vadd u v) = length u" "length (vscale a u) = length u" "length (vneg u) = length u"
  "length (vecmat w M) = nc M"
  by (simp_all add: vadd_def vscale_def vneg_def vecmat_def)

lemma qr_shapes:
  assumes "qr_ok M (qr_complete np M)"
  shows "nr (fst (qr_complete np M)) = nr M" "nc (fst (qr_complete np M)) = nr M"
    "nr (snd (qr_complete np M)) = nr M" "nc (snd (qr_complete np M)) = nc M"
  using assms by (auto simp: qr_ok_def split: prod.splits)

lemma QP_nullspace_value:
  assumes sh: "qp_shapes B c A b" and sc: "ns_scope g np A" and ct: "ns_contract np B c A b"
  shows "QP g B c A b (Some ''NullSpace'') = Inr (ns_x np B c A b, ns_lambda np B c A b)"
proof -
  obtain q r where qr: "qr_complete np (transpose_m A) = (q, r)" by (cases "qr_complete np (transpose_m A)")
  from ct have qrok: "qr_ok (transpose_m A) (qr_complete np (transpose_m A))"
    by (simp add: ns_contract_def)
  from qr_shapes[OF qrok] qr have qs: "nr q = nc A" "nc q = nc A" "nr r = nc A" "nc r = nr A"
    by simp_all
  from sc have g: "lookup g ''m'' = Inr (IntV (int (nr A)))" "lookup g ''print'' = Inr PrintV"
    and gnp: "lookup g ''np'' = Inr (NumpyV np)"
    by (simp_all add: ns_scope_def lookup_def)
  from sh have le: "nr A \<le> nc A" by (simp add: qp_shapes_def)
  have Z: "cols_from q (nr A) = null_basis np A" by (simp add: null_basis_def qr)
  have Y: "cols_upto q (nr A) = range_basis np A" by (simp add: range_basis_def qr)
  have R: "rows_upto r (nr A) = tri_factor np A" by (simp add: tri_factor_def qr)
  have zs: "nr (null_basis np A) = nc A" "nc (null_basis np A) = nc A - nr A"
    "nr (range_basis np A) = nc A" "nc (range_basis np A) = nr A"
    "nr (tri_factor np A) = nr A"
    using qs by (simp_all add: Z[symmetric] Y[symmetric] R[symmetric])
  from ct have l1: "length (ns_x_special np A b) = nc A"
    by (simp add: ns_contract_def lstsq_ok_def)
  from ct have l2: "length (ns_x_g np B c A b) = nc A - nr A"
    using zs by (simp add: ns_contract_def lstsq_ok_def reduced_hessian_def)
  let ?Z = "null_basis np A" and ?Y = "range_basis np A" and ?R = "tri_factor np A"
  from sh have shp: "nr B = nc A" "nc B = nc A" "length c = nc A" "length b = nr A"
    by (simp_all add: qp_shapes_def)
  have s1: "slice_idx (nc q) (int (nr A)) = nr A" "slice_idx (nr r) (int (nr A)) = nr A"
    using le qs by simp_all
  have c1: "np_lstsq np A (vscale (-1) b) = Inr (ns_x_special np A b)"
    using shp by (simp add: np_lstsq_def ns_x_special_def)
  have c2: "np_matmul (transpose_m ?Z) B = Inr (matmul (transpose_m ?Z) B)"
    using shp zs by (simp add: np_matmul_def)
  have c3: "np_matmul (matmul (transpose_m ?Z) B) ?Z = Inr (reduced_hessian np B A)"
    using shp zs by (simp add: np_matmul_def reduced_hessian_def)
  have c4: "np_matvec (transpose_m ?Z) c = Inr (matvec (transpose_m ?Z) c)"
    using shp zs by (simp add: np_matvec_def)
  have c5: "np_matvec (matmul (transpose_m ?Z) B) (ns_x_special np A b)
      = Inr (matvec (matmul (transpose_m ?Z) B) (ns_x_special np A b))"
    using shp zs l1 by (simp add: np_matvec_def)
  have c6: "np_add (matvec (transpose_m ?Z) c)
        (matvec (matmul (transpose_m ?Z) B) (ns_x_special np A b)) = Inr (ns_b_red np B c A b)"
    by (simp add: np_add_def ns_b_red_def)
  have c7: "np_lstsq np (reduced_hessian np B A) (vscale (-1) (ns_b_red np B c A b))
      = Inr (ns_x_g np B c A b)"
    by (simp add: np_lstsq_def ns_x_g_def reduced_hessian_def ns_b_red_def)
  have c8: "np_matvec ?Z (ns_x_g np B c A b) = Inr (matvec ?Z (ns_x_g np B c A b))"
    using zs l2 by (simp add: np_matvec_def)
  have c9: "np_add (matvec ?Z (ns_x_g np B c A b)) (ns_x_special np A b) = Inr (ns_x np B c A b)"
    using zs l1 by (simp add: np_add_def ns_x_def)
  have lx: "length (ns_x np B c A b) = nc A" using zs by (simp add: ns_x_def)
  have c10: "np_matvec B (ns_x np B c A b) = Inr (matvec B (ns_x np B c A b))"
    using shp lx by (simp add: np_matvec_def)
  have c11: "np_add (matvec B (ns_x np B c A b)) c = Inr (vadd (matvec B (ns_x np B c A b)) c)"
    using shp by (simp add: np_add_def)
  have c12: "np_matvec (neg_m (transpose_m ?Y)) (vadd (matvec B (ns_x np B c A b)) c)
      = Inr (ns_rhs np B c A b)"
    using shp zs by (simp add: np_matvec_def ns_rhs_def)
  have c13: "np_lstsq np ?R (ns_rhs np B c A b) = Inr (ns_lambda np B c A b)"
    using zs by (simp add: np_lstsq_def ns_lambda_def ns_rhs_def)
  have "QP_nullspace np g B c A b = Inr (ns_x np B c A b, ns_lambda np B c A b)"
    by (simp only: QP_nullspace_def qr g bindE_def Let_def s1 Z Y R prod.case sum.case
        as_int.simps call_print.simps c1 c2 c3 c4 c5 c6 c7 c8 c9 c10 c11 c12 c13)
  then show ?thesis by (simp add: QP_def gnp bindE_def)
qed

lemma kkt_shape [simp]: "nr (kkt_matrix B A) = nr B + nr A" "nc (kkt_matrix B A) = nr B + nr A"
  by (simp_all add: kkt_matrix_def)

lemma naive_assembly:
  assumes "nr B = n" "nc B = n" "nr A = k" "nc A = n"
  shows "bindE (assign2 (zeros_m (n + k) (n + k)) 0 n 0 n B) (\<lambda>nA1.
         bindE (assign2 nA1 n (n + k) 0 n A) (\<lambda>nA2.
         assign2 nA2 0 n n (n + k) (transpose_m A))) = Inr (kkt_matrix B A)"
  unfolding assign2_def bindE_def zeros_m_def kkt_matrix_def transpose_m_def
  using assms
  apply (simp del: One_nat_def)
  apply (intro ext)
  apply (auto simp del: One_nat_def)
  done

lemma naive_rhs:
  assumes "length c = n" "length b = k"
  shows "bindE (assign1 (replicate (n + k) 0) 0 n (vneg c)) (\<lambda>nb1.
           assign1 nb1 n (n + k) (vneg b)) = Inr (kkt_rhs c b)"
  unfolding assign1_def bindE_def kkt_rhs_def
  using assms
  apply (simp del: One_nat_def)
  apply (intro nth_equalityI)
   apply (auto simp: nth_append vneg_def simp del: One_nat_def)
  done

lemma QP_naive_value:
  assumes sh: "qp_shapes B c A b" and sc: "naive_scope g np A"
    and ct: "naive_contract np B c A b" and me: "meth \<noteq> Some ''NullSpace''"
  shows "QP g B c A b meth =
     Inr (take (nc A) (na_x_lambda np B c A b), drop (nc A) (na_x_lambda np B c A b))"
proof -
  from sh have shp: "nr B = nc A" "nc B = nc A" "length c = nc A" "length b = nr A"
    by (simp_all add: qp_shapes_def)
  from sc have g: "lookup g ''n'' = Inr (IntV (int (nc A)))"
      "lookup g ''m'' = Inr (IntV (int (nr A)))"
    and gnp: "lookup g ''np'' = Inr (NumpyV np)"
    by (simp_all add: naive_scope_def lookup_def)
  have N: "nat (int (nc A) + int (nr A)) = nc A + nr A" by simp
  have s: "slice_idx (nc A + nr A) (int (nc A)) = nc A" by simp
  note asm = naive_assembly[OF shp(1,2) refl refl, unfolded bindE_def]
  note rhs = naive_rhs[OF shp(3,4), unfolded bindE_def]
  from ct have len: "length (na_x_lambda np B c A b) = nc A + nr A"
    using shp by (simp add: naive_contract_def lstsq_ok_def na_x_lambda_def)
  have l: "np_lstsq np (kkt_matrix B A) (kkt_rhs c b) = Inr (na_x_lambda np B c A b)"
    using shp by (simp add: np_lstsq_def na_x_lambda_def kkt_rhs_def)
  have s2: "slice_idx (length (na_x_lambda np B c A b)) (int (nc A)) = nc A"
    using len by simp
  have "QP_naive np g B c A b =
     Inr (take (nc A) (na_x_lambda np B c A b), drop (nc A) (na_x_lambda np B c A b))"
    unfolding QP_naive_def g
    apply (simp only: bindE_def sum.case as_int.simps N s Let_def)
    apply (simp split: sum.splits)
    using asm rhs l s2
    apply (auto simp: bindE_def split: sum.splits)
    done
  with me show ?thesis by (simp add: QP_def gnp bindE_def)
qed

section \<open>The QP solver: feasibility\<close>

lemma qr_facts:
  assumes "qr_ok (transpose_m A) (qr_complete np (transpose_m A))"
  defines "Q \<equiv> fst (qr_complete np (transpose_m A))"
    and "R \<equiv> snd (qr_complete np (transpose_m A))"
  shows "\<And>i j. i < nc A \<Longrightarrow> j < nc A \<Longrightarrow> (\<Sum>l<nc A. ent Q l i * ent Q l j) = (if i = j then 1 else 0)"
    and "\<And>i j. i < nc A \<Longrightarrow> j < nc A \<Longrightarrow> (\<Sum>l<nc A. ent Q i l * ent Q j l) = (if i = j then 1 else 0)"
    and "\<And>i j. i < nc A \<Longrightarrow> j < nr A \<Longrightarrow> j < i \<Longrightarrow> ent R i j = 0"
    and "\<And>i j. j < nc A \<Longrightarrow> i < nr A \<Longrightarrow> (\<Sum>l<nc A. ent Q j l * ent R l i) = ent A i j"
proof -
  from assms(1) have sh: "nr Q = nc A" "nc Q = nc A" "nr R = nc A" "nc R = nr A"
    and e1: "mat_eq (matmul (transpose_m Q) Q) (eye (nc A))"
    and e2: "mat_eq (matmul Q (transpose_m Q)) (eye (nc A))"
    and ut: "upper_triangular R"
    and e3: "mat_eq (matmul Q R) (transpose_m A)"
    unfolding Q_def R_def by (auto simp: qr_ok_def split: prod.splits)
  show "(\<Sum>l<nc A. ent Q l i * ent Q l j) = (if i = j then 1 else 0)" if "i < nc A" "j < nc A" for i j
    using mat_eqD[OF e1, of i j] that sh by (simp add: matmul_def transpose_m_def eye_def)
  show "(\<Sum>l<nc A. ent Q i l * ent Q j l) = (if i = j then 1 else 0)" if "i < nc A" "j < nc A" for i j
    using mat_eqD[OF e2, of i j] that sh by (simp add: matmul_def transpose_m_def eye_def)
  show "ent R i j = 0" if "i < nc A" "j < nr A" "j < i" for i j
    using ut that sh by (simp add: upper_triangular_def)
  show "(\<Sum>l<nc A. ent Q j l * ent R l i) = ent A i j" if "j < nc A" "i < nr A" for i j
    using mat_eqD[OF e3, of j i] that sh by (simp add: matmul_def transpose_m_def)
qed

lemma null_basis_annihilated:
  assumes qr: "qr_ok (transpose_m A) (qr_complete np (transpose_m A))"
    and i: "i < nr A" and l: "l < nc A - nr A"
  shows "(\<Sum>j<nc A. ent A i j * ent (null_basis np A) j l) = 0"
proof -
  define Q where "Q = fst (qr_complete np (transpose_m A))"
  define R where "R = snd (qr_complete np (transpose_m A))"
  note f = qr_facts[OF qr, folded Q_def R_def]
  have lk: "l + nr A < nc A" using l by simp
  have Zent: "ent (null_basis np A) j l = ent Q j (l + nr A)" for j
    by (simp add: null_basis_def cols_from_def Q_def)
  have "(\<Sum>j<nc A. ent A i j * ent (null_basis np A) j l)
      = (\<Sum>j<nc A. (\<Sum>p<nc A. ent Q j p * ent R p i) * ent Q j (l + nr A))"
    using i by (intro sum.cong) (simp_all add: f(4) Zent)
  also have "\<dots> = (\<Sum>j<nc A. \<Sum>p<nc A. (ent Q j p * ent R p i) * ent Q j (l + nr A))"
    by (simp only: sum_distrib_right)
  also have "\<dots> = (\<Sum>j<nc A. \<Sum>p<nc A. ent R p i * (ent Q j p * ent Q j (l + nr A)))"
    by (intro sum.cong refl) (simp add: mult_ac)
  also have "\<dots> = (\<Sum>p<nc A. \<Sum>j<nc A. ent R p i * (ent Q j p * ent Q j (l + nr A)))"
    by (rule sum.swap)
  also have "\<dots> = (\<Sum>p<nc A. ent R p i * (\<Sum>j<nc A. ent Q j p * ent Q j (l + nr A)))"
    by (simp add: sum_distrib_left)
  also have "\<dots> = (\<Sum>p<nc A. ent R p i * (if p = l + nr A then 1 else 0))"
    using lk by (intro sum.cong) (simp_all add: f(1))
  also have "\<dots> = (\<Sum>p<nc A. if p = l + nr A then ent R p i else 0)"
    by (intro sum.cong) simp_all
  also have "\<dots> = ent R (l + nr A) i"
    using lk by (simp add: sum.delta)
  also have "\<dots> = 0"
    using i lk by (intro f(3)) simp_all
  finally show ?thesis .
qed

lemma vadd_nth: "i < length u \<Longrightarrow> vadd u v ! i = u ! i + v ! i"
  by (simp add: vadd_def)

lemma full_row_rank_residual:
  assumes fr: "full_row_rank A" and ls: "lstsq_ok A rhs sol" and len: "length rhs = nr A"
    and i: "i < nr A"
  shows "matvec A sol ! i = rhs ! i"
proof -
  define v where "v = map (\<lambda>i. matvec A sol ! i - rhs ! i) [0..<nr A]"
  have lv: "length v = nr A" by (simp add: v_def)
  have "vecmat v A = replicate (nc A) 0"
  proof (rule nth_equalityI)
    show "length (vecmat v A) = length (replicate (nc A) (0::real))" by simp
  next
    fix j assume "j < length (vecmat v A)"
    then have j: "j < nc A" by simp
    have "vecmat v A ! j = (\<Sum>k<nr A. v ! k * ent A k j)"
      using j by (simp add: vecmat_def)
    also have "\<dots> = (\<Sum>k<nr A. ent A k j * (matvec A sol ! k - rhs ! k))"
      by (intro sum.cong) (simp_all add: v_def mult.commute)
    also have "\<dots> = 0" by (rule lstsq_normal_eq[OF ls j])
    finally show "vecmat v A ! j = replicate (nc A) 0 ! j" using j by simp
  qed
  with fr lv have "v = replicate (nr A) 0" by (simp add: full_row_rank_def)
  then have "v ! i = 0" using i by simp
  then show ?thesis using i by (simp add: v_def)
qed

lemma ns_x_feasible:
  assumes sh: "qp_shapes B c A b" and ct: "ns_contract np B c A b" and fr: "full_row_rank A"
    and i: "i < nr A"
  shows "matvec A (ns_x np B c A b) ! i = - b ! i"
proof -
  let ?Z = "null_basis np A"
  let ?xg = "ns_x_g np B c A b" and ?xs = "ns_x_special np A b"
  from ct have qr: "qr_ok (transpose_m A) (qr_complete np (transpose_m A))"
    and ls: "lstsq_ok A (vscale (-1) b) ?xs"
    by (simp_all add: ns_contract_def)
  from sh have lb: "length b = nr A" by (simp add: qp_shapes_def)
  from qr_shapes[OF qr] have zs: "nr ?Z = nc A" "nc ?Z = nc A - nr A"
    by (simp_all add: null_basis_def)
  have "matvec A (ns_x np B c A b) ! i
      = (\<Sum>j<nc A. ent A i j * ((\<Sum>l<nc A - nr A. ent ?Z j l * ?xg ! l) + ?xs ! j))"
    using i zs by (simp add: matvec_nth ns_x_def vadd_nth)
  also have "\<dots> = (\<Sum>j<nc A. (\<Sum>l<nc A - nr A. (ent A i j * ent ?Z j l) * ?xg ! l))
       + (\<Sum>j<nc A. ent A i j * ?xs ! j)"
    by (simp add: distrib_left sum.distrib sum_distrib_left mult.assoc)
  also have "(\<Sum>j<nc A. (\<Sum>l<nc A - nr A. (ent A i j * ent ?Z j l) * ?xg ! l))
      = (\<Sum>l<nc A - nr A. (\<Sum>j<nc A. ent A i j * ent ?Z j l) * ?xg ! l)"
    by (subst sum.swap) (simp add: sum_distrib_right)
  also have "\<dots> = 0"
    using null_basis_annihilated[OF qr i] by simp
  also have "(\<Sum>j<nc A. ent A i j * ?xs ! j) = matvec A ?xs ! i"
    using i by (simp add: matvec_nth)
  also have "\<dots> = vscale (-1) b ! i"
    using lb by (intro full_row_rank_residual[OF fr ls _ i]) simp
  also have "\<dots> = - b ! i" using i lb by (simp add: vscale_def)
  finally show ?thesis by simp
qed

lemma matvec_matmul:
  fixes M W :: "real mat"
  assumes "nc M = nr W" "i < nr M"
  shows "matvec M (matvec W v) ! i = matvec (matmul M W) v ! i"
proof -
  have "matvec M (matvec W v) ! i = (\<Sum>p<nc M. ent M i p * (\<Sum>q<nc W. ent W p q * v ! q))"
    using assms by (simp add: matvec_nth)
  also have "\<dots> = (\<Sum>p<nc M. \<Sum>q<nc W. (ent M i p * ent W p q) * v ! q)"
    by (simp add: sum_distrib_left mult.assoc)
  also have "\<dots> = (\<Sum>q<nc W. \<Sum>p<nc M. (ent M i p * ent W p q) * v ! q)"
    by (rule sum.swap)
  also have "\<dots> = (\<Sum>q<nc W. (\<Sum>p<nc M. ent M i p * ent W p q) * v ! q)"
    by (simp only: sum_distrib_right)
  also have "\<dots> = matvec (matmul M W) v ! i"
    using assms by (simp add: matvec_nth matmul_def)
  finally show ?thesis .
qed

lemma nonsingular_consistent:
  assumes "nonsingular M" "length rhs = nr M"
  shows "\<exists>z. length z = nc M \<and> (\<forall>i<nr M. matvec M z ! i = rhs ! i)"
proof -
  from assms(1) obtain W where W: "nr M = nc M" "nr W = nr M" "nc W = nr M"
    "mat_eq (matmul M W) (eye (nr M))"
    by (auto simp: nonsingular_def)
  have "matvec M (matvec W rhs) ! i = rhs ! i" if i: "i < nr M" for i
  proof -
    have "matvec M (matvec W rhs) ! i = matvec (matmul M W) rhs ! i"
      using W i by (intro matvec_matmul) simp_all
    also have "\<dots> = (\<Sum>q<nr M. ent (matmul M W) i q * rhs ! q)"
      using i W by (simp add: matvec_nth)
    also have "\<dots> = (\<Sum>q<nr M. (if i = q then 1 else 0) * rhs ! q)"
      using mat_eqD[OF W(4), of i] i W by (intro sum.cong) (simp_all add: eye_def)
    also have "\<dots> = (\<Sum>q<nr M. if i = q then rhs ! q else 0)"
      by (intro sum.cong) simp_all
    also have "\<dots> = rhs ! i" using i by (simp add: sum.delta')
    finally show ?thesis .
  qed
  moreover have "length (matvec W rhs) = nc M" using W by simp
  ultimately show ?thesis by blast
qed

lemma kkt_lower_row:
  assumes "nr B = nc A" "i < nr A" "length z = nc A + nr A"
  shows "matvec (kkt_matrix B A) z ! (nc A + i) = matvec A (take (nc A) z) ! i"
proof -
  have "matvec (kkt_matrix B A) z ! (nc A + i)
      = (\<Sum>j<nc A + nr A. ent (kkt_matrix B A) (nc A + i) j * z ! j)"
    using assms by (simp add: matvec_nth)
  also have "\<dots> = (\<Sum>j<nc A + nr A. if j < nc A then ent A i j * z ! j else 0)"
    using assms by (intro sum.cong) (auto simp: kkt_matrix_def)
  also have "\<dots> = (\<Sum>j<nc A. ent A i j * z ! j)"
    by (subst sum.inter_filter[symmetric]) (auto intro!: sum.cong)
  also have "\<dots> = matvec A (take (nc A) z) ! i"
    using assms by (simp add: matvec_nth)
  finally show ?thesis .
qed

lemma naive_x_feasible:
  assumes sh: "qp_shapes B c A b" and ct: "naive_contract np B c A b"
    and ns: "nonsingular (kkt_matrix B A)" and i: "i < nr A"
  shows "matvec A (take (nc A) (na_x_lambda np B c A b)) ! i = - b ! i"
proof -
  from sh have shp: "nr B = nc A" "nc B = nc A" "length c = nc A" "length b = nr A"
    by (simp_all add: qp_shapes_def)
  let ?K = "kkt_matrix B A" and ?r = "kkt_rhs c b" and ?z = "na_x_lambda np B c A b"
  from ct have ls: "lstsq_ok ?K ?r ?z" by (simp add: naive_contract_def na_x_lambda_def)
  then have len: "length ?z = nc A + nr A" using shp by (simp add: lstsq_ok_def)
  have lr: "length ?r = nr ?K" using shp by (simp add: kkt_rhs_def)
  from nonsingular_consistent[OF ns lr] obtain z0 where
    z0: "length z0 = nc ?K" "\<forall>i<nr ?K. matvec ?K z0 ! i = ?r ! i" by blast
  have "matvec ?K ?z ! (nc A + i) = ?r ! (nc A + i)"
    using i shp by (intro lstsq_exact_if_consistent[OF ls z0]) simp
  moreover have "?r ! (nc A + i) = - b ! i"
    using i shp by (simp add: kkt_rhs_def nth_append vneg_def)
  ultimately show ?thesis
    using kkt_lower_row[OF shp(1) i len] by simp
qed


section \<open>The QP solver: the multipliers\<close>

lemma upper_tri_solvable:
  fixes R :: "nat \<Rightarrow> nat \<Rightarrow> real"
  assumes "\<forall>i<k. \<forall>j<i. R i j = 0" "\<forall>i<k. R i i \<noteq> 0"
  shows "\<exists>u. \<forall>i<k. (\<Sum>j<k. R i j * u j) = rhs i"
  using assms
proof (induction k arbitrary: rhs)
  case 0
  show ?case by simp
next
  case (Suc k)
  define uk where "uk = rhs k / R k k"
  have "\<exists>u. \<forall>i<k. (\<Sum>j<k. R i j * u j) = rhs i - R i k * uk"
    using Suc.prems by (intro Suc.IH) simp_all
  then obtain u where u: "\<forall>i<k. (\<Sum>j<k. R i j * u j) = rhs i - R i k * uk" by blast
  define w where "w = u(k := uk)"
  have same: "(\<Sum>j<k. R i j * w j) = (\<Sum>j<k. R i j * u j)" for i
    by (intro sum.cong) (simp_all add: w_def)
  have "(\<Sum>j<Suc k. R i j * w j) = rhs i" if i: "i < Suc k" for i
  proof (cases "i < k")
    case True
    with u have "(\<Sum>j<k. R i j * w j) = rhs i - R i k * uk" by (simp add: same)
    then show ?thesis by (simp add: w_def)
  next
    case False
    with i have ik: "i = k" by simp
    have "(\<Sum>j<k. R k j * w j) = 0"
      using Suc.prems(1) by (intro sum.neutral) simp
    moreover have "R k k * uk = rhs k"
      using Suc.prems(2) by (simp add: uk_def)
    ultimately show ?thesis by (simp add: ik w_def)
  qed
  then show ?case by blast
qed

lemma upper_tri_inj_diag:
  fixes R :: "nat \<Rightarrow> nat \<Rightarrow> real"
  assumes tri: "\<forall>i<n. \<forall>j<i. R i j = 0"
    and inj: "\<And>v. (\<forall>i<n. (\<Sum>j<n. R i j * v j) = 0) \<Longrightarrow> (\<forall>j<n. v j = 0)"
  shows "\<forall>i<n. R i i \<noteq> 0"
proof (rule ccontr)
  assume "\<not> (\<forall>i<n. R i i \<noteq> 0)"
  then have ex: "\<exists>i. i < n \<and> R i i = 0" by blast
  define k where "k = (LEAST i. i < n \<and> R i i = 0)"
  from LeastI_ex[OF ex] have k: "k < n" "R k k = 0" by (simp_all add: k_def)
  have before: "\<forall>i<k. R i i \<noteq> 0"
  proof (intro allI impI notI)
    fix i assume i: "i < k" and z: "R i i = 0"
    from i k(1) have "i < n" by simp
    with z have "k \<le> i" unfolding k_def by (intro Least_le) simp
    with i show False by simp
  qed
  have "\<exists>u. \<forall>i<k. (\<Sum>j<k. R i j * u j) = R i k"
    using tri k(1) before by (intro upper_tri_solvable) simp_all
  then obtain u where u: "\<forall>i<k. (\<Sum>j<k. R i j * u j) = R i k" by blast
  define v where "v = (\<lambda>j. if j < k then u j else if j = k then - 1 else 0)"
  have "(\<Sum>j<n. R i j * v j) = 0" if i: "i < n" for i
  proof -
    have "(\<Sum>j<n. R i j * v j) = (\<Sum>j<Suc k. R i j * v j)"
      using k(1) by (intro sum.mono_neutral_right) (auto simp: v_def)
    also have "\<dots> = (\<Sum>j<k. R i j * u j) - R i k"
      by (simp add: v_def)
    also have "\<dots> = 0"
    proof (cases "i < k")
      case True
      then show ?thesis using u by simp
    next
      case False
      then have "\<forall>j<k. R i j = 0" using tri i by simp
      moreover have "R i k = 0"
      proof (cases "i = k")
        case True then show ?thesis using k(2) by simp
      next
        case False
        with \<open>\<not> i < k\<close> have "k < i" by simp
        then show ?thesis using tri i by simp
      qed
      ultimately show ?thesis by simp
    qed
    finally show ?thesis .
  qed
  from inj[of v] this have "v k = 0" using k(1) by blast
  then show False by (simp add: v_def)
qed

lemma tri_factor_injective:
  assumes qr: "qr_ok (transpose_m A) (qr_complete np (transpose_m A))"
    and fr: "full_row_rank A" and le: "nr A \<le> nc A"
    and v: "\<forall>i<nr A. (\<Sum>j<nr A. ent (tri_factor np A) i j * v j) = 0"
  shows "\<forall>j<nr A. v j = 0"
proof -
  define Q where "Q = fst (qr_complete np (transpose_m A))"
  define R where "R = snd (qr_complete np (transpose_m A))"
  note fc = qr_facts[OF qr, folded Q_def R_def]
  have Rp: "ent (tri_factor np A) = ent R" by (simp add: tri_factor_def rows_upto_def R_def)
  define w where "w = map v [0..<nr A]"
  have inner: "(\<Sum>i<nr A. ent R p i * v i) = 0" if p: "p < nc A" for p
  proof (cases "p < nr A")
    case True
    then show ?thesis using v by (simp add: Rp)
  next
    case False
    then show ?thesis using p by (intro sum.neutral) (simp add: fc(3))
  qed
  have "vecmat w A = replicate (nc A) 0"
  proof (rule nth_equalityI)
    show "length (vecmat w A) = length (replicate (nc A) (0::real))" by simp
  next
    fix j assume "j < length (vecmat w A)"
    then have j: "j < nc A" by simp
    have "vecmat w A ! j = (\<Sum>i<nr A. v i * ent A i j)"
      using j by (simp add: vecmat_def w_def)
    also have "\<dots> = (\<Sum>i<nr A. v i * (\<Sum>p<nc A. ent Q j p * ent R p i))"
      using j by (intro sum.cong) (simp_all add: fc(4))
    also have "\<dots> = (\<Sum>i<nr A. \<Sum>p<nc A. ent Q j p * (ent R p i * v i))"
      by (simp add: sum_distrib_left mult_ac)
    also have "\<dots> = (\<Sum>p<nc A. \<Sum>i<nr A. ent Q j p * (ent R p i * v i))"
      by (rule sum.swap)
    also have "\<dots> = (\<Sum>p<nc A. ent Q j p * (\<Sum>i<nr A. ent R p i * v i))"
      by (simp only: sum_distrib_left)
    also have "\<dots> = 0"
      by (intro sum.neutral) (simp add: inner)
    finally show "vecmat w A ! j = replicate (nc A) 0 ! j" using j by simp
  qed
  moreover have "length w = nr A" by (simp add: w_def)
  ultimately have "w = replicate (nr A) 0" using fr by (simp add: full_row_rank_def)
  then have "\<forall>j<nr A. w ! j = 0" by simp
  then show ?thesis by (simp add: w_def)
qed

lemma ns_lambda_exact:
  assumes sh: "qp_shapes B c A b" and ct: "ns_contract np B c A b" and fr: "full_row_rank A"
    and i: "i < nr A"
  shows "matvec (tri_factor np A) (ns_lambda np B c A b) ! i = ns_rhs np B c A b ! i"
proof -
  let ?R = "tri_factor np A"
  from ct have qr: "qr_ok (transpose_m A) (qr_complete np (transpose_m A))"
    and ls: "lstsq_ok ?R (ns_rhs np B c A b) (ns_lambda np B c A b)"
    by (simp_all add: ns_contract_def)
  from sh have le: "nr A \<le> nc A" by (simp add: qp_shapes_def)
  from qr_shapes[OF qr] have rs: "nr ?R = nr A" "nc ?R = nr A"
    by (simp_all add: tri_factor_def)
  note fc = qr_facts[OF qr]
  have tri: "\<forall>i<nr A. \<forall>j<i. ent ?R i j = 0"
    using le fc(3) by (simp add: tri_factor_def rows_upto_def)
  have diag: "\<forall>i<nr A. ent ?R i i \<noteq> 0"
    using tri_factor_injective[OF qr fr le] by (intro upper_tri_inj_diag[OF tri]) blast
  from upper_tri_solvable[OF tri diag, of "\<lambda>i. ns_rhs np B c A b ! i"]
  obtain u where u: "\<forall>i<nr A. (\<Sum>j<nr A. ent ?R i j * u j) = ns_rhs np B c A b ! i" by blast
  define z where "z = map u [0..<nr A]"
  have "\<forall>i<nr ?R. matvec ?R z ! i = ns_rhs np B c A b ! i"
    using u rs by (simp add: matvec_nth z_def)
  moreover have "length z = nc ?R" using rs by (simp add: z_def)
  ultimately show ?thesis
    using i rs by (intro lstsq_exact_if_consistent[OF ls]) simp_all
qed


section \<open>The QP solver: the two branches agree\<close>

lemma pd_lstsq_exact:
  assumes pd: "positive_definite M" and ls: "lstsq_ok M rhs sol"
    and i: "i < nr M"
  shows "matvec M sol ! i = rhs ! i"
proof -
  define r where "r = map (\<lambda>i. matvec M sol ! i - rhs ! i) [0..<nr M]"
  from pd have sq: "nr M = nc M" by (simp add: positive_definite_def)
  have lr: "length r = nr M" by (simp add: r_def)
  have rn: "r ! p = matvec M sol ! p - rhs ! p" if "p < nr M" for p
    using that by (simp add: r_def)
  have "dot r (matvec M r) = (\<Sum>p<nr M. r ! p * (\<Sum>q<nc M. ent M p q * r ! q))"
    unfolding dot_def lr lsum_sum by (intro sum.cong) (simp_all add: matvec_nth)
  also have "\<dots> = (\<Sum>p<nr M. \<Sum>q<nc M. r ! q * (ent M p q * r ! p))"
    by (simp add: sum_distrib_left mult_ac)
  also have "\<dots> = (\<Sum>q<nc M. \<Sum>p<nr M. r ! q * (ent M p q * r ! p))"
    by (rule sum.swap)
  also have "\<dots> = (\<Sum>q<nc M. r ! q * (\<Sum>p<nr M. ent M p q * r ! p))"
    by (simp only: sum_distrib_left)
  also have "\<dots> = 0"
  proof (intro sum.neutral ballI)
    fix q assume "q \<in> {..<nc M}"
    then have q: "q < nc M" by simp
    have "(\<Sum>p<nr M. ent M p q * r ! p) = (\<Sum>p<nr M. ent M p q * (matvec M sol ! p - rhs ! p))"
      by (intro sum.cong) (simp_all add: rn)
    also have "\<dots> = 0" by (rule lstsq_normal_eq[OF ls q])
    finally show "r ! q * (\<Sum>p<nr M. ent M p q * r ! p) = 0" by simp
  qed
  finally have "\<not> 0 < dot r (matvec M r)" by simp
  with pd lr have "r = replicate (nr M) 0" by (auto simp: positive_definite_def)
  then have "r ! i = 0" using i by simp
  with rn[OF i] show ?thesis by simp
qed

lemma ns_reduced_gradient_zero:
  assumes sh: "qp_shapes B c A b" and ct: "ns_contract np B c A b"
    and pd: "positive_definite (reduced_hessian np B A)"
    and p: "p < nc A - nr A"
  shows "(\<Sum>i<nc A. ent (null_basis np A) i p * vadd (matvec B (ns_x np B c A b)) c ! i) = 0"
proof -
  let ?Z = "null_basis np A" and ?H = "reduced_hessian np B A"
  let ?xg = "ns_x_g np B c A b" and ?xs = "ns_x_special np A b"
  let ?n = "nc A" and ?d = "nc A - nr A"
  from sh have shp: "nr B = nc A" "nc B = nc A" "length c = nc A"
    by (simp_all add: qp_shapes_def)
  from ct have qr: "qr_ok (transpose_m A) (qr_complete np (transpose_m A))"
    and ls: "lstsq_ok ?H (vscale (-1) (ns_b_red np B c A b)) ?xg"
    by (simp_all add: ns_contract_def)
  from qr_shapes[OF qr] have zs: "nr ?Z = ?n" "nc ?Z = ?d"
    by (simp_all add: null_basis_def)
  have hs: "nr ?H = ?d" "nc ?H = ?d" using zs by (simp_all add: reduced_hessian_def)
  have H: "ent ?H a q = (\<Sum>j<?n. (\<Sum>i<?n. ent ?Z i a * ent B i j) * ent ?Z j q)" for a q
    using zs shp by (simp add: reduced_hessian_def matmul_def transpose_m_def)
  have bred: "ns_b_red np B c A b ! p
      = (\<Sum>i<?n. ent ?Z i p * c ! i) + (\<Sum>j<?n. (\<Sum>i<?n. ent ?Z i p * ent B i j) * ?xs ! j)"
    using p zs shp
    by (simp add: ns_b_red_def vadd_nth matvec_nth matmul_def transpose_m_def)
  have "matvec ?H ?xg ! p = vscale (-1) (ns_b_red np B c A b) ! p"
    using p hs by (intro pd_lstsq_exact[OF pd ls]) simp
  also have "\<dots> = - ns_b_red np B c A b ! p"
    using p zs by (simp add: vscale_def ns_b_red_def)
  finally have ex: "(\<Sum>q<?d. ent ?H p q * ?xg ! q) = - ns_b_red np B c A b ! p"
    using p hs by (simp add: matvec_nth)
  have xj: "ns_x np B c A b ! j = (\<Sum>q<?d. ent ?Z j q * ?xg ! q) + ?xs ! j" if "j < ?n" for j
    using that zs by (simp add: ns_x_def vadd_nth matvec_nth)
  have gi: "vadd (matvec B (ns_x np B c A b)) c ! i
      = (\<Sum>j<?n. ent B i j * ((\<Sum>q<?d. ent ?Z j q * ?xg ! q) + ?xs ! j)) + c ! i"
    if "i < ?n" for i
  proof -
    have "(\<Sum>j<?n. ent B i j * ns_x np B c A b ! j)
        = (\<Sum>j<?n. ent B i j * ((\<Sum>q<?d. ent ?Z j q * ?xg ! q) + ?xs ! j))"
      by (intro sum.cong) (simp_all add: xj)
    then show ?thesis using that shp by (simp add: vadd_nth matvec_nth)
  qed
  have "(\<Sum>i<?n. ent ?Z i p * vadd (matvec B (ns_x np B c A b)) c ! i)
      = (\<Sum>i<?n. ent ?Z i p *
           ((\<Sum>j<?n. ent B i j * ((\<Sum>q<?d. ent ?Z j q * ?xg ! q) + ?xs ! j)) + c ! i))"
    by (intro sum.cong) (simp_all add: gi)
  also have "\<dots> = (\<Sum>i<?n. \<Sum>j<?n. \<Sum>q<?d. ent ?Z i p * ent B i j * ent ?Z j q * ?xg ! q)
       + (\<Sum>i<?n. \<Sum>j<?n. ent ?Z i p * ent B i j * ?xs ! j)
       + (\<Sum>i<?n. ent ?Z i p * c ! i)"
    by (simp add: distrib_left sum.distrib sum_distrib_left mult.assoc)
  also have "(\<Sum>i<?n. \<Sum>j<?n. \<Sum>q<?d. ent ?Z i p * ent B i j * ent ?Z j q * ?xg ! q)
      = (\<Sum>q<?d. ent ?H p q * ?xg ! q)"
  proof -
    have "(\<Sum>i<?n. \<Sum>j<?n. \<Sum>q<?d. ent ?Z i p * ent B i j * ent ?Z j q * ?xg ! q)
        = (\<Sum>j<?n. \<Sum>i<?n. \<Sum>q<?d. ent ?Z i p * ent B i j * ent ?Z j q * ?xg ! q)"
      by (rule sum.swap)
    also have "\<dots> = (\<Sum>j<?n. \<Sum>q<?d. \<Sum>i<?n. ent ?Z i p * ent B i j * ent ?Z j q * ?xg ! q)"
      by (intro sum.cong refl sum.swap)
    also have "\<dots> = (\<Sum>q<?d. \<Sum>j<?n. \<Sum>i<?n. ent ?Z i p * ent B i j * ent ?Z j q * ?xg ! q)"
      by (rule sum.swap)
    also have "\<dots> = (\<Sum>q<?d. ent ?H p q * ?xg ! q)"
      by (intro sum.cong refl) (simp add: H sum_distrib_right)
    finally show ?thesis .
  qed
  also have "(\<Sum>i<?n. \<Sum>j<?n. ent ?Z i p * ent B i j * ?xs ! j)
      = (\<Sum>j<?n. (\<Sum>i<?n. ent ?Z i p * ent B i j) * ?xs ! j)"
    by (subst sum.swap) (simp add: sum_distrib_right)
  finally show ?thesis
    using ex bred by simp
qed

lemma constraint_rows_from_qr:
  assumes qr: "qr_ok (transpose_m A) (qr_complete np (transpose_m A))"
    and le: "nr A \<le> nc A" and i: "i < nr A" and j: "j < nc A"
  shows "ent A i j = (\<Sum>p<nr A. ent (fst (qr_complete np (transpose_m A))) j p
                         * ent (snd (qr_complete np (transpose_m A))) p i)"
proof -
  note fc = qr_facts[OF qr]
  have "ent A i j = (\<Sum>p<nc A. ent (fst (qr_complete np (transpose_m A))) j p
                         * ent (snd (qr_complete np (transpose_m A))) p i)"
    using fc(4)[OF j i] by simp
  also have "\<dots> = (\<Sum>p<nr A. ent (fst (qr_complete np (transpose_m A))) j p
                         * ent (snd (qr_complete np (transpose_m A))) p i)"
    using le i by (intro sum.mono_neutral_right) (auto simp: fc(3))
  finally show ?thesis .
qed

lemma ns_stationarity:
  assumes sh: "qp_shapes B c A b" and ct: "ns_contract np B c A b"
    and fr: "full_row_rank A" and pd: "positive_definite (reduced_hessian np B A)"
    and j: "j < nc A"
  shows "vadd (matvec B (ns_x np B c A b)) c ! j
           + (\<Sum>i<nr A. ent A i j * ns_lambda np B c A b ! i) = 0"
proof -
  define Q where "Q = fst (qr_complete np (transpose_m A))"
  define R where "R = snd (qr_complete np (transpose_m A))"
  define gv where "gv = vadd (matvec B (ns_x np B c A b)) c"
  define t where "t = (\<lambda>p. \<Sum>i<nc A. ent Q i p * gv ! i)"
  let ?lam = "ns_lambda np B c A b"
  from ct have qr: "qr_ok (transpose_m A) (qr_complete np (transpose_m A))"
    by (simp add: ns_contract_def)
  from sh have le: "nr A \<le> nc A" by (simp add: qp_shapes_def)
  note fc = qr_facts[OF qr, folded Q_def R_def]
  from qr_shapes[OF qr] have ys: "nr (range_basis np A) = nc A" "nc (tri_factor np A) = nr A"
    by (simp_all add: range_basis_def tri_factor_def)
  have expand: "gv ! j = (\<Sum>p<nc A. ent Q j p * t p)"
  proof -
    have "(\<Sum>p<nc A. ent Q j p * t p) = (\<Sum>p<nc A. \<Sum>i<nc A. (ent Q j p * ent Q i p) * gv ! i)"
      by (simp add: t_def sum_distrib_left mult.assoc)
    also have "\<dots> = (\<Sum>i<nc A. \<Sum>p<nc A. (ent Q j p * ent Q i p) * gv ! i)"
      by (rule sum.swap)
    also have "\<dots> = (\<Sum>i<nc A. (\<Sum>p<nc A. ent Q j p * ent Q i p) * gv ! i)"
      by (simp only: sum_distrib_right)
    also have "\<dots> = (\<Sum>i<nc A. (if j = i then 1 else 0) * gv ! i)"
      using j by (intro sum.cong) (simp_all add: fc(2))
    also have "\<dots> = (\<Sum>i<nc A. if j = i then gv ! i else 0)"
      by (intro sum.cong) simp_all
    also have "\<dots> = gv ! j" using j by (simp add: sum.delta')
    finally show ?thesis by simp
  qed
  have tail: "t p = 0" if "nr A \<le> p" "p < nc A" for p
  proof -
    from that have l: "p - nr A < nc A - nr A" by simp
    have "t p = (\<Sum>i<nc A. ent (null_basis np A) i (p - nr A) * gv ! i)"
      using that by (simp add: t_def null_basis_def cols_from_def Q_def)
    also have "\<dots> = 0"
      unfolding gv_def by (rule ns_reduced_gradient_zero[OF sh ct pd l])
    finally show ?thesis .
  qed
  have front: "t p = - (\<Sum>i<nr A. ent R p i * ?lam ! i)" if p: "p < nr A" for p
  proof -
    have "(\<Sum>i<nr A. ent R p i * ?lam ! i) = matvec (tri_factor np A) ?lam ! p"
      using p ys by (simp add: matvec_nth tri_factor_def rows_upto_def R_def)
    also have "\<dots> = ns_rhs np B c A b ! p"
      by (rule ns_lambda_exact[OF sh ct fr p])
    also have "\<dots> = (\<Sum>i<nc A. - ent Q i p * gv ! i)"
      using p ys by (simp add: ns_rhs_def matvec_nth gv_def neg_m_def transpose_m_def
          range_basis_def cols_upto_def Q_def)
    also have "\<dots> = - t p"
      by (simp add: t_def sum_negf)
    finally show ?thesis by simp
  qed
  have "gv ! j = (\<Sum>p<nc A. ent Q j p * t p)" by (rule expand)
  also have "\<dots> = (\<Sum>p<nr A. ent Q j p * t p)"
    using le by (intro sum.mono_neutral_right) (auto simp: tail)
  also have "\<dots> = (\<Sum>p<nr A. \<Sum>i<nr A. - ((ent Q j p * ent R p i) * ?lam ! i))"
    by (simp add: front sum_distrib_left sum_negf mult.assoc)
  also have "\<dots> = (\<Sum>i<nr A. \<Sum>p<nr A. - ((ent Q j p * ent R p i) * ?lam ! i))"
    by (rule sum.swap)
  also have "\<dots> = - (\<Sum>i<nr A. (\<Sum>p<nr A. ent Q j p * ent R p i) * ?lam ! i)"
    by (simp add: sum_negf sum_distrib_right)
  also have "(\<Sum>i<nr A. (\<Sum>p<nr A. ent Q j p * ent R p i) * ?lam ! i)
      = (\<Sum>i<nr A. ent A i j * ?lam ! i)"
    using constraint_rows_from_qr[OF qr le _ j]
    by (intro sum.cong) (simp_all add: Q_def R_def)
  finally show ?thesis by (simp add: gv_def)
qed

lemma sum_lessThan_add:
  fixes h :: "nat \<Rightarrow> real"
  shows "(\<Sum>q<a + d. h q) = (\<Sum>q<a. h q) + (\<Sum>l<d. h (a + l))"
  by (induction d) (simp_all add: add.assoc)

lemma kkt_upper_row:
  assumes "nr B = nc A" "j < nc A"
  shows "matvec (kkt_matrix B A) z ! j
     = (\<Sum>q<nc A. ent B j q * z ! q) + (\<Sum>i<nr A. ent A i j * z ! (nc A + i))"
proof -
  have "matvec (kkt_matrix B A) z ! j = (\<Sum>q<nc A + nr A. ent (kkt_matrix B A) j q * z ! q)"
    using assms by (simp add: matvec_nth)
  also have "\<dots> = (\<Sum>q<nc A. ent (kkt_matrix B A) j q * z ! q)
       + (\<Sum>i<nr A. ent (kkt_matrix B A) j (nc A + i) * z ! (nc A + i))"
    by (rule sum_lessThan_add)
  also have "(\<Sum>q<nc A. ent (kkt_matrix B A) j q * z ! q) = (\<Sum>q<nc A. ent B j q * z ! q)"
    using assms by (intro sum.cong) (simp_all add: kkt_matrix_def)
  also have "(\<Sum>i<nr A. ent (kkt_matrix B A) j (nc A + i) * z ! (nc A + i))
      = (\<Sum>i<nr A. ent A i j * z ! (nc A + i))"
    using assms by (intro sum.cong) (simp_all add: kkt_matrix_def)
  finally show ?thesis .
qed

lemma tri_factor_diag:
  fixes np :: np_lib
  assumes qr: "qr_ok (transpose_m A) (qr_complete np (transpose_m A))"
    and fr: "full_row_rank A" and le: "nr A \<le> nc A"
  shows "\<forall>i<nr A. ent (snd (qr_complete np (transpose_m A))) i i \<noteq> 0"
proof -
  note fc = qr_facts[OF qr]
  have Rp: "ent (tri_factor np A) = ent (snd (qr_complete np (transpose_m A)))"
    by (simp add: tri_factor_def rows_upto_def)
  have tri: "\<forall>i<nr A. \<forall>j<i. ent (tri_factor np A) i j = 0"
    using le fc(3) by (simp add: Rp)
  have "\<forall>i<nr A. ent (tri_factor np A) i i \<noteq> 0"
    using tri_factor_injective[OF qr fr le] by (intro upper_tri_inj_diag[OF tri]) blast
  then show ?thesis by (simp add: Rp)
qed

lemma lower_tri_kernel:
  fixes R :: "nat \<Rightarrow> nat \<Rightarrow> real"
  assumes tri: "\<forall>i<k. \<forall>j<i. R i j = 0" and diag: "\<forall>i<k. R i i \<noteq> 0"
    and ker: "\<forall>i<k. (\<Sum>p<k. R p i * y p) = 0"
  shows "i < k \<Longrightarrow> y i = 0"
proof (induction i rule: less_induct)
  case (less i)
  have "(\<Sum>p<k. R p i * y p) = (\<Sum>p<k. if p = i then R i i * y i else 0)"
  proof (intro sum.cong refl)
    fix p assume "p \<in> {..<k}"
    then have p: "p < k" by simp
    show "R p i * y p = (if p = i then R i i * y i else 0)"
    proof (cases "p < i")
      case True
      then show ?thesis using less.IH[OF True p] by simp
    next
      case False
      show ?thesis
      proof (cases "p = i")
        case True then show ?thesis by simp
      next
        case ne: False
        with False have "i < p" by simp
        then show ?thesis using tri p ne by simp
      qed
    qed
  qed
  also have "\<dots> = R i i * y i" using less.prems by (simp add: sum.delta)
  finally have "R i i * y i = 0" using ker less.prems by simp
  with diag less.prems show ?case by simp
qed

lemma kkt_kernel_trivial:
  fixes np :: np_lib and u w :: "nat \<Rightarrow> real"
  assumes shp: "nr B = nc A" "nc B = nc A" and le: "nr A \<le> nc A"
    and qr: "qr_ok (transpose_m A) (qr_complete np (transpose_m A))"
    and fr: "full_row_rank A" and pd: "positive_definite (reduced_hessian np B A)"
    and upper: "\<forall>j<nc A. (\<Sum>q<nc A. ent B j q * u q) + (\<Sum>i<nr A. ent A i j * w i) = 0"
    and lower: "\<forall>i<nr A. (\<Sum>q<nc A. ent A i q * u q) = 0"
  shows "(\<forall>q<nc A. u q = 0) \<and> (\<forall>i<nr A. w i = 0)"
proof -
  define Q where "Q = fst (qr_complete np (transpose_m A))"
  define R where "R = snd (qr_complete np (transpose_m A))"
  define d where "d = nc A - nr A"
  define y where "y = (\<lambda>p. \<Sum>q<nc A. ent Q q p * u q)"
  define s where "s = (\<lambda>l. y (nr A + l))"
  define sl where "sl = map s [0..<d]"
  define Bu where "Bu = (\<lambda>q. \<Sum>r<nc A. ent B q r * u r)"
  let ?Z = "null_basis np A" and ?H = "reduced_hessian np B A"
  note fc = qr_facts[OF qr, folded Q_def R_def]
  have nd: "nc A = nr A + d" using le by (simp add: d_def)
  from qr_shapes[OF qr] have zs: "nr ?Z = nc A" "nc ?Z = d"
    by (simp_all add: null_basis_def d_def)
  have hs: "nr ?H = d" "nc ?H = d" using zs by (simp_all add: reduced_hessian_def)
  have Z: "ent ?Z q l = ent Q q (nr A + l)" for q l
    by (simp add: null_basis_def cols_from_def Q_def add.commute)
  have H: "ent ?H a l = (\<Sum>j<nc A. (\<Sum>i<nc A. ent ?Z i a * ent B i j) * ent ?Z j l)" for a l
    using zs shp by (simp add: reduced_hessian_def matmul_def transpose_m_def)
  \<comment> \<open>the component of \<open>u\<close> in the range of \<open>Y\<close> vanishes\<close>
  have ker: "\<forall>i<nr A. (\<Sum>p<nr A. ent R p i * y p) = 0"
  proof (intro allI impI)
    fix i assume i: "i < nr A"
    have "(\<Sum>p<nr A. ent R p i * y p) = (\<Sum>p<nr A. \<Sum>q<nc A. (ent Q q p * ent R p i) * u q)"
      by (simp add: y_def sum_distrib_left mult_ac)
    also have "\<dots> = (\<Sum>q<nc A. \<Sum>p<nr A. (ent Q q p * ent R p i) * u q)"
      by (rule sum.swap)
    also have "\<dots> = (\<Sum>q<nc A. (\<Sum>p<nr A. ent Q q p * ent R p i) * u q)"
      by (simp only: sum_distrib_right)
    also have "\<dots> = (\<Sum>q<nc A. ent A i q * u q)"
      using constraint_rows_from_qr[OF qr le i]
      by (intro sum.cong) (simp_all add: Q_def R_def)
    also have "\<dots> = 0" using lower i by simp
    finally show "(\<Sum>p<nr A. ent R p i * y p) = 0" .
  qed
  have tri: "\<forall>i<nr A. \<forall>j<i. ent R i j = 0" using le fc(3) by simp
  have diag: "\<forall>i<nr A. ent R i i \<noteq> 0"
    using tri_factor_diag[OF qr fr le] by (simp add: R_def)
  have y0: "y p = 0" if "p < nr A" for p
    using lower_tri_kernel[OF tri diag ker that] .
  \<comment> \<open>so \<open>u\<close> lies in the range of \<open>Z\<close>\<close>
  have uq: "u q = (\<Sum>l<d. ent ?Z q l * s l)" if q: "q < nc A" for q
  proof -
    have "(\<Sum>p<nc A. ent Q q p * y p) = (\<Sum>p<nc A. \<Sum>r<nc A. (ent Q q p * ent Q r p) * u r)"
      by (simp add: y_def sum_distrib_left mult.assoc)
    also have "\<dots> = (\<Sum>r<nc A. \<Sum>p<nc A. (ent Q q p * ent Q r p) * u r)"
      by (rule sum.swap)
    also have "\<dots> = (\<Sum>r<nc A. (\<Sum>p<nc A. ent Q q p * ent Q r p) * u r)"
      by (simp only: sum_distrib_right)
    also have "\<dots> = (\<Sum>r<nc A. (if q = r then 1 else 0) * u r)"
      using q by (intro sum.cong) (simp_all add: fc(2))
    also have "\<dots> = (\<Sum>r<nc A. if q = r then u r else 0)"
      by (intro sum.cong) simp_all
    also have "\<dots> = u q" using q by (simp add: sum.delta')
    finally have "u q = (\<Sum>p<nr A + d. ent Q q p * y p)" by (simp add: nd)
    also have "\<dots> = (\<Sum>p<nr A. ent Q q p * y p) + (\<Sum>l<d. ent Q q (nr A + l) * y (nr A + l))"
      by (rule sum_lessThan_add)
    also have "(\<Sum>p<nr A. ent Q q p * y p) = 0"
      by (intro sum.neutral) (simp add: y0)
    finally show ?thesis by (simp add: Z s_def)
  qed
  \<comment> \<open>the quadratic form of \<open>B\<close> vanishes at \<open>u\<close>\<close>
  have quad0: "(\<Sum>q<nc A. u q * Bu q) = 0"
  proof -
    have "Bu q = - (\<Sum>i<nr A. ent A i q * w i)" if "q < nc A" for q
      using upper[rule_format, OF that] unfolding Bu_def by linarith
    then have "(\<Sum>q<nc A. u q * Bu q) = (\<Sum>q<nc A. \<Sum>i<nr A. - (w i * (ent A i q * u q)))"
      by (intro sum.cong refl) (simp add: sum_distrib_left sum_negf mult_ac)
    also have "\<dots> = (\<Sum>i<nr A. \<Sum>q<nc A. - (w i * (ent A i q * u q)))"
      by (rule sum.swap)
    also have "\<dots> = (\<Sum>i<nr A. - (w i * (\<Sum>q<nc A. ent A i q * u q)))"
      by (simp add: sum_negf sum_distrib_left)
    also have "\<dots> = 0" using lower by simp
    finally show ?thesis .
  qed
  have Hs: "matvec ?H sl ! l = (\<Sum>i<nc A. ent ?Z i l * Bu i)" if l: "l < d" for l
  proof -
    have "matvec ?H sl ! l = (\<Sum>a<d. ent ?H l a * s a)"
      using l hs by (simp add: matvec_nth sl_def)
    also have "\<dots> = (\<Sum>a<d. \<Sum>j<nc A. (\<Sum>i<nc A. ent ?Z i l * ent B i j) * (ent ?Z j a * s a))"
      by (simp add: H sum_distrib_right mult.assoc)
    also have "\<dots> = (\<Sum>j<nc A. \<Sum>a<d. (\<Sum>i<nc A. ent ?Z i l * ent B i j) * (ent ?Z j a * s a))"
      by (rule sum.swap)
    also have "\<dots> = (\<Sum>j<nc A. (\<Sum>i<nc A. ent ?Z i l * ent B i j) * (\<Sum>a<d. ent ?Z j a * s a))"
      by (simp only: sum_distrib_left)
    also have "\<dots> = (\<Sum>j<nc A. (\<Sum>i<nc A. ent ?Z i l * ent B i j) * u j)"
      by (intro sum.cong) (simp_all add: uq)
    also have "\<dots> = (\<Sum>j<nc A. \<Sum>i<nc A. ent ?Z i l * (ent B i j * u j))"
      by (simp add: sum_distrib_right mult.assoc)
    also have "\<dots> = (\<Sum>i<nc A. \<Sum>j<nc A. ent ?Z i l * (ent B i j * u j))"
      by (rule sum.swap)
    also have "\<dots> = (\<Sum>i<nc A. ent ?Z i l * Bu i)"
      by (simp add: Bu_def sum_distrib_left)
    finally show ?thesis .
  qed
  have "dot sl (matvec ?H sl) = (\<Sum>l<d. s l * (\<Sum>i<nc A. ent ?Z i l * Bu i))"
    unfolding dot_def by (simp add: sl_def) (intro sum.cong, simp_all add: Hs[unfolded sl_def])
  also have "\<dots> = (\<Sum>l<d. \<Sum>i<nc A. (ent ?Z i l * s l) * Bu i)"
    by (simp add: sum_distrib_left mult_ac)
  also have "\<dots> = (\<Sum>i<nc A. \<Sum>l<d. (ent ?Z i l * s l) * Bu i)"
    by (rule sum.swap)
  also have "\<dots> = (\<Sum>i<nc A. (\<Sum>l<d. ent ?Z i l * s l) * Bu i)"
    by (simp only: sum_distrib_right)
  also have "\<dots> = (\<Sum>i<nc A. u i * Bu i)"
    by (intro sum.cong) (simp_all add: uq)
  also have "\<dots> = 0" by (rule quad0)
  finally have "\<not> 0 < dot sl (matvec ?H sl)" by simp
  moreover have "length sl = nr ?H" using hs by (simp add: sl_def)
  ultimately have "sl = replicate (nr ?H) 0"
    using pd by (auto simp: positive_definite_def)
  then have "\<forall>l<d. sl ! l = 0" using hs by simp
  then have s0: "s l = 0" if "l < d" for l using that by (simp add: sl_def)
  have u0: "u q = 0" if "q < nc A" for q
    using uq[OF that] by (simp add: s0)
  \<comment> \<open>and then the multiplier part vanishes by the independence of the rows\<close>
  define wl where "wl = map w [0..<nr A]"
  have "vecmat wl A = replicate (nc A) 0"
  proof (rule nth_equalityI)
    show "length (vecmat wl A) = length (replicate (nc A) (0::real))" by simp
  next
    fix j assume "j < length (vecmat wl A)"
    then have j: "j < nc A" by simp
    have "(\<Sum>q<nc A. ent B j q * u q) = 0" by (intro sum.neutral) (simp add: u0)
    with upper[rule_format, OF j] have "(\<Sum>i<nr A. ent A i j * w i) = 0" by linarith
    then have "vecmat wl A ! j = 0"
      using j by (simp add: vecmat_def wl_def mult.commute)
    then show "vecmat wl A ! j = replicate (nc A) 0 ! j" using j by simp
  qed
  moreover have "length wl = nr A" by (simp add: wl_def)
  ultimately have "wl = replicate (nr A) 0" using fr by (simp add: full_row_rank_def)
  then have "\<forall>i<nr A. wl ! i = 0" by simp
  then have "\<forall>i<nr A. w i = 0" by (simp add: wl_def)
  with u0 show ?thesis by blast
qed

lemma naive_equals_nullspace:
  assumes sh: "qp_shapes B c A b" and ct: "ns_contract np B c A b"
    and cn: "naive_contract np B c A b"
    and fr: "full_row_rank A" and pd: "positive_definite (reduced_hessian np B A)"
  shows "na_x_lambda np B c A b = ns_x np B c A b @ ns_lambda np B c A b"
proof -
  from sh have shp: "nr B = nc A" "nc B = nc A" "length c = nc A" "length b = nr A"
    and le: "nr A \<le> nc A" by (simp_all add: qp_shapes_def)
  from ct have qr: "qr_ok (transpose_m A) (qr_complete np (transpose_m A))"
    and ll: "lstsq_ok (tri_factor np A) (ns_rhs np B c A b) (ns_lambda np B c A b)"
    by (simp_all add: ns_contract_def)
  let ?K = "kkt_matrix B A" and ?r = "kkt_rhs c b" and ?z = "na_x_lambda np B c A b"
  let ?xs = "ns_x np B c A b" and ?lam = "ns_lambda np B c A b"
  let ?t = "?xs @ ?lam"
  from cn have ls: "lstsq_ok ?K ?r ?z" by (simp add: naive_contract_def na_x_lambda_def)
  then have lz: "length ?z = nc A + nr A" using shp by (simp add: lstsq_ok_def)
  from qr_shapes[OF qr] have lx: "length ?xs = nc A"
    by (simp add: ns_x_def null_basis_def)
  from ll qr_shapes[OF qr] have llam: "length ?lam = nr A"
    by (simp add: lstsq_ok_def tri_factor_def)
  have lt: "length ?t = nc ?K" using lx llam shp by simp
  \<comment> \<open>the null-space pair solves the KKT system\<close>
  have up: "matvec ?K ?t ! j = ?r ! j" if j: "j < nc A" for j
  proof -
    have "matvec ?K ?t ! j
        = (\<Sum>q<nc A. ent B j q * ?t ! q) + (\<Sum>i<nr A. ent A i j * ?t ! (nc A + i))"
      by (rule kkt_upper_row[OF shp(1) j])
    also have "(\<Sum>q<nc A. ent B j q * ?t ! q) = matvec B ?xs ! j"
      using j shp lx by (simp add: matvec_nth nth_append)
    also have "(\<Sum>i<nr A. ent A i j * ?t ! (nc A + i)) = (\<Sum>i<nr A. ent A i j * ?lam ! i)"
      using lx by (simp add: nth_append)
    finally have "matvec ?K ?t ! j = matvec B ?xs ! j + (\<Sum>i<nr A. ent A i j * ?lam ! i)" .
    moreover have "vadd (matvec B ?xs) c ! j = matvec B ?xs ! j + c ! j"
      using j shp by (simp add: vadd_nth)
    moreover note ns_stationarity[OF sh ct fr pd j]
    moreover have "?r ! j = - c ! j"
      using j shp by (simp add: kkt_rhs_def nth_append vneg_def)
    ultimately show ?thesis by linarith
  qed
  have lo: "matvec ?K ?t ! (nc A + i) = ?r ! (nc A + i)" if i: "i < nr A" for i
  proof -
    have "matvec ?K ?t ! (nc A + i) = matvec A (take (nc A) ?t) ! i"
      using lx llam by (intro kkt_lower_row[OF shp(1) i]) simp
    also have "\<dots> = matvec A ?xs ! i" using lx by simp
    also have "\<dots> = - b ! i" by (rule ns_x_feasible[OF sh ct fr i])
    also have "\<dots> = ?r ! (nc A + i)"
      using i shp by (simp add: kkt_rhs_def nth_append vneg_def)
    finally show ?thesis .
  qed
  have cons: "\<forall>i<nr ?K. matvec ?K ?t ! i = ?r ! i"
  proof (intro allI impI)
    fix i assume "i < nr ?K"
    then have i: "i < nc A + nr A" using shp by simp
    show "matvec ?K ?t ! i = ?r ! i"
    proof (cases "i < nc A")
      case True then show ?thesis by (rule up)
    next
      case False
      with i have "i - nc A < nr A" "i = nc A + (i - nc A)" by simp_all
      with lo[of "i - nc A"] show ?thesis by simp
    qed
  qed
  \<comment> \<open>so the least-squares solution of the naive branch solves it too\<close>
  have ex: "matvec ?K ?z ! i = ?r ! i" if "i < nr ?K" for i
    by (rule lstsq_exact_if_consistent[OF ls lt cons that])
  \<comment> \<open>and the difference lies in the kernel of the KKT matrix\<close>
  define u where "u = (\<lambda>q. ?z ! q - ?t ! q)"
  define w where "w = (\<lambda>i. ?z ! (nc A + i) - ?t ! (nc A + i))"
  have upper: "\<forall>j<nc A. (\<Sum>q<nc A. ent B j q * u q) + (\<Sum>i<nr A. ent A i j * w i) = 0"
  proof (intro allI impI)
    fix j assume j: "j < nc A"
    then have "matvec ?K ?z ! j = matvec ?K ?t ! j" using ex[of j] up[OF j] shp by simp
    then have "(\<Sum>q<nc A. ent B j q * ?z ! q) + (\<Sum>i<nr A. ent A i j * ?z ! (nc A + i))
        = (\<Sum>q<nc A. ent B j q * ?t ! q) + (\<Sum>i<nr A. ent A i j * ?t ! (nc A + i))"
      by (simp only: kkt_upper_row[OF shp(1) j])
    moreover have "(\<Sum>q<nc A. ent B j q * u q)
        = (\<Sum>q<nc A. ent B j q * ?z ! q) - (\<Sum>q<nc A. ent B j q * ?t ! q)"
      by (simp add: u_def right_diff_distrib sum_subtractf)
    moreover have "(\<Sum>i<nr A. ent A i j * w i)
        = (\<Sum>i<nr A. ent A i j * ?z ! (nc A + i)) - (\<Sum>i<nr A. ent A i j * ?t ! (nc A + i))"
      by (simp add: w_def right_diff_distrib sum_subtractf)
    ultimately show "(\<Sum>q<nc A. ent B j q * u q) + (\<Sum>i<nr A. ent A i j * w i) = 0"
      by linarith
  qed
  have lower: "\<forall>i<nr A. (\<Sum>q<nc A. ent A i q * u q) = 0"
  proof (intro allI impI)
    fix i assume i: "i < nr A"
    have "matvec ?K ?z ! (nc A + i) = matvec ?K ?t ! (nc A + i)"
      using ex[of "nc A + i"] lo[OF i] i shp by simp
    then have "matvec A (take (nc A) ?z) ! i = matvec A (take (nc A) ?t) ! i"
      using kkt_lower_row[OF shp(1) i lz] kkt_lower_row[OF shp(1) i, of ?t] lx llam by simp
    then have "(\<Sum>q<nc A. ent A i q * ?z ! q) = (\<Sum>q<nc A. ent A i q * ?t ! q)"
      using i lx by (simp add: matvec_nth nth_append)
    then show "(\<Sum>q<nc A. ent A i q * u q) = 0"
      by (simp add: u_def right_diff_distrib sum_subtractf)
  qed
  from kkt_kernel_trivial[OF shp(1,2) le qr fr pd upper lower]
  have u0: "\<forall>q<nc A. u q = 0" and w0: "\<forall>i<nr A. w i = 0" by blast+
  show ?thesis
  proof (rule nth_equalityI)
    show "length ?z = length ?t" using lz lx llam by simp
  next
    fix i assume "i < length ?z"
    then have i: "i < nc A + nr A" using lz by simp
    show "?z ! i = ?t ! i"
    proof (cases "i < nc A")
      case True with u0 show ?thesis by (simp add: u_def)
    next
      case False
      with i have "i - nc A < nr A" "i = nc A + (i - nc A)" by simp_all
      with w0 have "w (i - nc A) = 0" by blast
      then show ?thesis using \<open>i = nc A + (i - nc A)\<close> by (simp add: w_def)
    qed
  qed
qed


section \<open>The QP solver: the reference problems\<close>

lemma qp1_ns:
  "QP (env_nm np_ref 3 1) (eye 3) qp1_c qp1_A qp1_b (Some ''NullSpace'') = Inr ([1, - 2, 0], [- 2])"
  by code_simp

lemma qp1_ns0:
  "QP (env_nm np_ref 3 0) (eye 3) qp1_c qp1_A qp1_b (Some ''NullSpace'') = Inr ([- 1, - 2, 0], [0])"
  by code_simp

lemma qp1_naive:
  "QP (env_nm np_ref 3 1) (eye 3) qp1_c qp1_A qp1_b None = Inr ([1, - 2, 0], [- 2])"
  by code_simp

lemma qp2_ns:
  "QP (env_nm np_ref 3 2) (eye 3) qp2_c qp2_A qp2_b (Some ''NullSpace'') = Inr ([1, 2, - 5], [1, - 2])"
  by code_simp

lemma qp1_ns_notebook:
  "QP (env_nm np_ref 7 2) (eye 3) qp1_c qp1_A qp1_b (Some ''NullSpace'') = Inr ([1, 0, 0], [- 2])"
  by code_simp

lemma qp1_naive_notebook:
  "QP (env_nm np_ref 7 2) (eye 3) qp1_c qp1_A qp1_b None = Inl ValueError"
  by code_simp

lemma lstsq_ok_exactI:
  assumes "length sol = nc a" "matvec a sol = rhs"
  shows "lstsq_ok a rhs sol"
proof -
  have "sq_res a sol rhs = 0" using assms(2) by (simp add: sq_res_def)
  moreover have "0 \<le> sq_res a z rhs" for z by (simp add: sq_res_def sum_nonneg)
  ultimately show ?thesis using assms(1) by (simp add: lstsq_ok_def)
qed

lemma qp1_shapes: "qp_shapes (eye 3) qp1_c qp1_A qp1_b"
  by (simp add: qp_shapes_def qp1_c_def qp1_A_def qp1_b_def mat_of_rows_def)

lemma qp2_shapes: "qp_shapes (eye 3) qp2_c qp2_A qp2_b"
  by (simp add: qp_shapes_def qp2_c_def qp2_A_def qp2_b_def mat_of_rows_def)

lemma qp1_scopes:
  "ns_scope (env_nm np_ref 3 1) np_ref qp1_A" "naive_scope (env_nm np_ref 3 1) np_ref qp1_A"
  by (simp_all add: ns_scope_def naive_scope_def env_nm_def qp1_A_def mat_of_rows_def)

lemma qp2_scope: "ns_scope (env_nm np_ref 3 2) np_ref qp2_A"
  by (simp add: ns_scope_def env_nm_def qp2_A_def mat_of_rows_def)

lemma qp1_qr: "qr_ok (transpose_m qp1_A) (qr_complete np_ref (transpose_m qp1_A))"
  by (simp add: qr_ok_def np_ref_def qr_ref_def mat_eq_def upper_triangular_def matmul_def
      transpose_m_def eye_def qp1_A_def mat_of_rows_def lessThan_Suc numeral_3_eq_3)

lemma qp2_qr: "qr_ok (transpose_m qp2_A) (qr_complete np_ref (transpose_m qp2_A))"
  by (simp add: qr_ok_def np_ref_def qr_ref_def mat_eq_def upper_triangular_def matmul_def
      transpose_m_def eye_def qp2_A_def mat_of_rows_def lessThan_Suc numeral_3_eq_3
      numeral_2_eq_2)

lemma qp1_ns_contract: "ns_contract np_ref (eye 3) qp1_c qp1_A qp1_b"
  unfolding ns_contract_def
proof (intro conjI lstsq_ok_exactI)
  show "qr_ok (transpose_m qp1_A) (qr_complete np_ref (transpose_m qp1_A))" by (rule qp1_qr)
qed code_simp+

lemma qp2_ns_contract: "ns_contract np_ref (eye 3) qp2_c qp2_A qp2_b"
  unfolding ns_contract_def
proof (intro conjI lstsq_ok_exactI)
  show "qr_ok (transpose_m qp2_A) (qr_complete np_ref (transpose_m qp2_A))" by (rule qp2_qr)
qed code_simp+

lemma qp1_naive_contract: "naive_contract np_ref (eye 3) qp1_c qp1_A qp1_b"
  unfolding naive_contract_def
  by (intro lstsq_ok_exactI) code_simp+

lemma qp1_full_rank: "full_row_rank qp1_A"
  by (auto simp: full_row_rank_def length_Suc_conv vecmat_def qp1_A_def mat_of_rows_def
      numeral_3_eq_3)

lemma qp2_full_rank: "full_row_rank qp2_A"
  by (auto simp: full_row_rank_def length_Suc_conv vecmat_def qp2_A_def mat_of_rows_def
      numeral_3_eq_3 numeral_2_eq_2 lessThan_Suc)

lemma mat_eq_code: "mat_eq M N \<longleftrightarrow>
    nr M = nr N \<and> nc M = nc N \<and>
    list_all (\<lambda>i. list_all (\<lambda>j. ent M i j = ent N i j) [0..<nc M]) [0..<nr M]"
  by (auto simp: mat_eq_def list_all_iff)

lemma qp1_kkt_nonsingular: "nonsingular (kkt_matrix (eye 3) qp1_A)"
  unfolding nonsingular_def
proof (intro conjI exI[of _ qp1_kkt_inverse])
  show "mat_eq (matmul (kkt_matrix (eye 3) qp1_A) qp1_kkt_inverse) (eye (nr (kkt_matrix (eye 3) qp1_A)))"
    unfolding mat_eq_code by code_simp
  show "mat_eq (matmul qp1_kkt_inverse (kkt_matrix (eye 3) qp1_A)) (eye (nr (kkt_matrix (eye 3) qp1_A)))"
    unfolding mat_eq_code by code_simp
qed (simp_all add: qp1_kkt_inverse_def qp1_A_def mat_of_rows_def)

lemma qp1_reduced_hessian_pd: "positive_definite (reduced_hessian np_ref (eye 3) qp1_A)"
proof -
  let ?H = "reduced_hessian np_ref (eye 3) qp1_A"
  have sh: "nr ?H = 2" "nc ?H = 2"
    by (simp_all add: reduced_hessian_def null_basis_def np_ref_def qr_ref_def qp1_A_def
        mat_of_rows_def)
  have e: "ent ?H i j = (if i = j then 1 else 0)" if "i < 2" "j < 2" for i j
    using that
    by (auto simp: reduced_hessian_def null_basis_def np_ref_def qr_ref_def qp1_A_def
        mat_of_rows_def matmul_def transpose_m_def cols_from_def eye_def slice_idx_def
        numeral_3_eq_3 numeral_2_eq_2 lessThan_Suc less_Suc_eq)
  have "0 < dot v (matvec ?H v)" if v: "length v = 2" "v \<noteq> replicate 2 0" for v
  proof -
    from v(1) obtain a b' where ab: "v = [a, b']"
      by (auto simp: length_Suc_conv numeral_2_eq_2)
    with v(2) have nz: "a \<noteq> 0 \<or> b' \<noteq> 0" by (auto simp: numeral_2_eq_2)
    have "dot v (matvec ?H v) = a * a + b' * b'"
      using sh by (simp add: ab dot_def matvec_def e numeral_2_eq_2 lessThan_Suc)
    also have "\<dots> > 0" using nz
      by (metis add_pos_nonneg add_nonneg_pos zero_le_square mult_eq_0_iff less_le)
    finally show ?thesis .
  qed
  then show ?thesis using sh by (simp add: positive_definite_def)
qed



lemma QP_not_a_module: "g ''np'' = Some OtherV \<Longrightarrow> QP g B c A b meth = Inl AttributeError"
  by (simp add: QP_def lookup_def bindE_def)






section \<open>The QP solver: what a call depends on\<close>




section \<open>The QP solver: the claims on the returned pair\<close>

text \<open>
  C4, amended (the multipliers of the null-space branch). For arguments of consistent
  shapes with not more constraints than variables, in a scope where \<^verbatim>\<open>np\<close> is the
  module, \<^verbatim>\<open>print\<close> the builtin and \<^verbatim>\<open>m\<close> the number of rows of \<open>A\<close>, with external
  calls that keep their contracts and linearly independent rows of \<open>A\<close>: the call
  returns, and the returned multipliers solve the triangular system
  \<open>Rp \<lambda> = -Y'(Bx + c)\<close> with the untransposed block \<open>Rp\<close>, for the returned \<open>x\<close>.
\<close>

theorem ns_multipliers_solve_triangular_system:
  assumes "qp_shapes B c A b" "ns_scope g np A" "ns_contract np B c A b" "full_row_rank A"
  shows "\<exists>xs lam. QP g B c A b (Some ''NullSpace'') = Inr (xs, lam) \<and>
           length lam = nr A \<and>
           matvec (tri_factor np A) lam =
             matvec (neg_m (transpose_m (range_basis np A))) (vadd (matvec B xs) c)"
proof -
  from assms(3) have qr: "qr_ok (transpose_m A) (qr_complete np (transpose_m A))"
    and ls: "lstsq_ok (tri_factor np A) (ns_rhs np B c A b) (ns_lambda np B c A b)"
    by (simp_all add: ns_contract_def)
  from qr_shapes[OF qr] have rs: "nr (tri_factor np A) = nr A" "nc (tri_factor np A) = nr A"
    "nc (range_basis np A) = nr A"
    by (simp_all add: tri_factor_def range_basis_def)
  from ls rs have len: "length (ns_lambda np B c A b) = nr A" by (simp add: lstsq_ok_def)
  have "matvec (tri_factor np A) (ns_lambda np B c A b) = ns_rhs np B c A b"
    using rs
    by (intro nth_equalityI) (simp_all add: ns_lambda_exact[OF assms(1,3,4)] ns_rhs_def)
  then show ?thesis
    using QP_nullspace_value[OF assms(1,2,3)] len by (simp add: ns_rhs_def)
qed

theorem ns_multipliers_solve_triangular_system_witness:
  "QP (env_nm np_ref 3 2) (eye 3) qp2_c qp2_A qp2_b (Some ''NullSpace'') = Inr ([1, 2, - 5], [1, - 2]) \<and>
   matvec (tri_factor np_ref qp2_A) [1, - 2] =
     matvec (neg_m (transpose_m (range_basis np_ref qp2_A))) (vadd (matvec (eye 3) [1, 2, - 5]) qp2_c)"
  using ns_multipliers_solve_triangular_system[OF qp2_shapes qp2_scope qp2_ns_contract
      qp2_full_rank] qp2_ns
  by simp

text \<open>
  C4 as stated fails: in the second problem \<open>Rp\<close> is not symmetric, and the returned
  multipliers \<open>(1, -2)\<close> do not solve the system with the transposed block.
\<close>

theorem transposed_triangular_system_fails:
  "QP (env_nm np_ref 3 2) (eye 3) qp2_c qp2_A qp2_b (Some ''NullSpace'') = Inr ([1, 2, - 5], [1, - 2]) \<and>
   matvec (transpose_m (tri_factor np_ref qp2_A)) [1, - 2] = [1, - 1] \<and>
   matvec (neg_m (transpose_m (range_basis np_ref qp2_A))) (vadd (matvec (eye 3) [1, 2, - 5]) qp2_c)
     = [- 1, - 2]"
  by (intro conjI qp2_ns) code_simp+

text \<open>
  C5, amended (the two branches return the same pair). For arguments of consistent
  shapes with not more constraints than variables, in a scope where \<^verbatim>\<open>np\<close> is the
  module, \<^verbatim>\<open>print\<close> the builtin, \<^verbatim>\<open>n\<close> the number of columns and \<^verbatim>\<open>m\<close> the number of rows
  of \<open>A\<close>, with external calls that keep their contracts, linearly independent rows of
  \<open>A\<close> and a positive definite reduced Hessian \<open>Z\<^sup>T B Z\<close>: the call with
  \<^verbatim>\<open>method='NullSpace'\<close> and the call with any other method both return, and they
  return the same \<open>x\<close> and the same multipliers, in exact arithmetic.
\<close>

theorem naive_and_nullspace_agree:
  assumes "qp_shapes B c A b" and "ns_scope g np A" and "naive_scope g np A"
    and "ns_contract np B c A b" and "naive_contract np B c A b"
    and "full_row_rank A" and "positive_definite (reduced_hessian np B A)"
    and "meth \<noteq> Some ''NullSpace''"
  shows "\<exists>xs lam. QP g B c A b (Some ''NullSpace'') = Inr (xs, lam) \<and>
                  QP g B c A b meth = Inr (xs, lam)"
proof -
  from assms(4) have "length (ns_x np B c A b) = nc A"
    using qr_shapes[of "transpose_m A" np]
    by (simp add: ns_contract_def ns_x_def null_basis_def)
  then have "take (nc A) (na_x_lambda np B c A b) = ns_x np B c A b"
    and "drop (nc A) (na_x_lambda np B c A b) = ns_lambda np B c A b"
    using naive_equals_nullspace[OF assms(1,4,5,6,7)] by simp_all
  then show ?thesis
    using QP_nullspace_value[OF assms(1,2,4)] QP_naive_value[OF assms(1,3,5,8)] by simp
qed

theorem naive_and_nullspace_agree_witness:
  "QP (env_nm np_ref 3 1) (eye 3) qp1_c qp1_A qp1_b (Some ''NullSpace'') = Inr ([1, - 2, 0], [- 2]) \<and>
   QP (env_nm np_ref 3 1) (eye 3) qp1_c qp1_A qp1_b None = Inr ([1, - 2, 0], [- 2]) \<and>
   (\<exists>xs lam. QP (env_nm np_ref 3 1) (eye 3) qp1_c qp1_A qp1_b (Some ''NullSpace'') = Inr (xs, lam) \<and>
             QP (env_nm np_ref 3 1) (eye 3) qp1_c qp1_A qp1_b None = Inr (xs, lam))"
  using naive_and_nullspace_agree[OF qp1_shapes qp1_scopes qp1_ns_contract qp1_naive_contract
      qp1_full_rank qp1_reduced_hessian_pd, of None] qp1_ns qp1_naive
  by simp

text \<open>
  C5 as stated fails: the first problem has three variables and one constraint, linearly
  independent rows and a positive definite reduced Hessian; in the scope of the notebook,
  where \<^verbatim>\<open>n = 7\<close> and \<^verbatim>\<open>m = 2\<close>, the null-space call returns a pair and the other call
  raises \<^verbatim>\<open>ValueError\<close>.
\<close>

theorem branches_differ_in_notebook_scope:
  "qp_shapes (eye 3) qp1_c qp1_A qp1_b \<and> full_row_rank qp1_A \<and>
   positive_definite (reduced_hessian np_ref (eye 3) qp1_A) \<and>
   QP (env_nm np_ref 7 2) (eye 3) qp1_c qp1_A qp1_b (Some ''NullSpace'') = Inr ([1, 0, 0], [- 2]) \<and>
   QP (env_nm np_ref 7 2) (eye 3) qp1_c qp1_A qp1_b None = Inl ValueError"
  using qp1_shapes qp1_full_rank qp1_reduced_hessian_pd qp1_ns_notebook qp1_naive_notebook
  by simp

text \<open>
  C6, amended (the returned \<open>x\<close> satisfies \<open>A x + b = 0\<close>). For arguments of consistent
  shapes with not more constraints than variables, in a scope where \<^verbatim>\<open>np\<close> is the module
  and the names the branch reads hold what they stand for (\<^verbatim>\<open>print\<close> the builtin and
  \<^verbatim>\<open>m\<close> the number of rows of \<open>A\<close> in the null-space branch, \<^verbatim>\<open>n\<close> the number of columns
  and \<^verbatim>\<open>m\<close> the number of rows of \<open>A\<close> in the other), with external calls that keep their
  contracts: the null-space branch returns a feasible \<open>x\<close> when the rows of \<open>A\<close> are
  linearly independent, the naive branch when the KKT matrix is invertible.
\<close>

theorem qp_solution_feasible:
  assumes "qp_shapes B c A b"
    and "meth = Some ''NullSpace'' \<longrightarrow>
           ns_scope g np A \<and> ns_contract np B c A b \<and> full_row_rank A"
    and "meth \<noteq> Some ''NullSpace'' \<longrightarrow>
           naive_scope g np A \<and> naive_contract np B c A b \<and> nonsingular (kkt_matrix B A)"
  shows "\<exists>xs lam. QP g B c A b meth = Inr (xs, lam) \<and> length xs = nc A \<and>
           vadd (matvec A xs) b = replicate (nr A) 0"
proof (cases "meth = Some ''NullSpace''")
  case True
  with assms have sc: "ns_scope g np A" and ct: "ns_contract np B c A b"
    and fr: "full_row_rank A" by simp_all
  have "vadd (matvec A (ns_x np B c A b)) b = replicate (nr A) 0"
    by (rule nth_equalityI) (simp_all add: vadd_nth ns_x_feasible[OF assms(1) ct fr])
  moreover from ct have "length (ns_x np B c A b) = nc A"
    using qr_shapes[of "transpose_m A" np]
    by (simp add: ns_x_def ns_contract_def null_basis_def)
  ultimately show ?thesis
    using QP_nullspace_value[OF assms(1) sc ct] True by simp
next
  case False
  with assms have sc: "naive_scope g np A" and ct: "naive_contract np B c A b"
    and ns: "nonsingular (kkt_matrix B A)"
    by simp_all
  from assms(1) have shp: "nr B = nc A" by (simp add: qp_shapes_def)
  from ct have len: "length (na_x_lambda np B c A b) = nc A + nr A"
    using shp by (simp add: naive_contract_def lstsq_ok_def na_x_lambda_def)
  have "vadd (matvec A (take (nc A) (na_x_lambda np B c A b))) b = replicate (nr A) 0"
    by (rule nth_equalityI) (simp_all add: vadd_nth naive_x_feasible[OF assms(1) ct ns])
  then show ?thesis
    using QP_naive_value[OF assms(1) sc ct False] len by simp
qed

theorem qp_solution_feasible_witness:
  "QP (env_nm np_ref 3 1) (eye 3) qp1_c qp1_A qp1_b (Some ''NullSpace'') = Inr ([1, - 2, 0], [- 2]) \<and>
   QP (env_nm np_ref 3 1) (eye 3) qp1_c qp1_A qp1_b None = Inr ([1, - 2, 0], [- 2]) \<and>
   vadd (matvec qp1_A [1, - 2, 0]) qp1_b = replicate (nr qp1_A) 0"
proof -
  from qp_solution_feasible[of "eye 3" qp1_c qp1_A qp1_b "Some ''NullSpace''"
      "env_nm np_ref 3 1" np_ref]
    qp1_shapes qp1_scopes qp1_ns_contract qp1_full_rank qp1_ns
  have a: "vadd (matvec qp1_A [1, - 2, 0]) qp1_b = replicate (nr qp1_A) 0" by simp
  from qp_solution_feasible[of "eye 3" qp1_c qp1_A qp1_b None "env_nm np_ref 3 1" np_ref]
    qp1_shapes qp1_scopes qp1_naive_contract qp1_kkt_nonsingular qp1_naive
  have "vadd (matvec qp1_A [1, - 2, 0]) qp1_b = replicate (nr qp1_A) 0" by simp
  with a qp1_ns qp1_naive show ?thesis by simp
qed

text \<open>
  C6 as stated fails: the first problem has linearly independent rows, an invertible KKT
  matrix and a positive definite reduced Hessian; in a scope where \<^verbatim>\<open>m = 0\<close> the null-space call returns \<open>x = (-1, -2, 0)\<close>,
  for which \<open>A x + b = -2\<close>.
\<close>

theorem returned_point_infeasible_with_other_m:
  "qp_shapes (eye 3) qp1_c qp1_A qp1_b \<and> full_row_rank qp1_A \<and>
   nonsingular (kkt_matrix (eye 3) qp1_A) \<and>
   positive_definite (reduced_hessian np_ref (eye 3) qp1_A) \<and>
   QP (env_nm np_ref 3 0) (eye 3) qp1_c qp1_A qp1_b (Some ''NullSpace'') = Inr ([- 1, - 2, 0], [0]) \<and>
   vadd (matvec qp1_A [- 1, - 2, 0]) qp1_b = [- 2]"
proof -
  have "vadd (matvec qp1_A [- 1, - 2, 0]) qp1_b = [- 2]" by code_simp
  with qp1_shapes qp1_full_rank qp1_kkt_nonsingular qp1_reduced_hessian_pd qp1_ns0
  show ?thesis by simp
qed

end
